theory Spec2Isabelle
  imports Complex_Main "HOL-Library.AList"
begin

section \<open>Python values and errors\<close>

text \<open>
  The exceptions that the modelled functions can raise. The first group are the
  exceptions the source really raises (Python built-ins, the index library's
  \<open>RuntimeError\<close> and \<open>AssertionError\<close>, the remote client's error). The last three are
  the names of the specification's error taxonomy; no statement of the source raises them.
\<close>

datatype error =
    ValueError | ZeroDivisionError | IndexError | KeyError
  | FileNotFoundError | RuntimeError | AssertionError | UnpicklingError | EOFError
  | RemoteError
  | InvalidConfigError | IndexNotFoundError | IndexCorruptError

text \<open>
  A chunk is a Python \<open>dict\<close> with string keys; its values are strings, integers and
  floats. The dict keeps insertion order, so it is an association list; \<open>d[k] = v\<close> is
  \<open>AList.update k v d\<close> (replace in place, or append a new key).
  Floats are modelled by the rationals they denote.
\<close>

datatype pyval = PStr string | PInt int | PFloat rat

type_synonym pydict = "(string \<times> pyval) list"

definition dget :: "pydict \<Rightarrow> string \<Rightarrow> error + pyval" where
  \<comment> \<open>\<open>d[k]\<close>: KeyError on a missing key.\<close>
  "dget d k = (case map_of d k of None \<Rightarrow> Inl KeyError | Some v \<Rightarrow> Inr v)"

definition dset :: "pydict \<Rightarrow> string \<Rightarrow> pyval \<Rightarrow> pydict" where
  \<comment> \<open>\<open>d[k] = v\<close>\<close>
  "dset d k v = AList.update k v d"

section \<open>Python built-ins used by the chunker\<close>

definition py_isspace :: "char \<Rightarrow> bool" where
  \<comment> \<open>The whitespace code points below U+0100: what \<open>str.split()\<close>, \<open>str.strip()\<close>
      and the pattern \<open>\s\<close> treat as whitespace.\<close>
  "py_isspace c =
     (let n = (of_char c :: nat)
      in (9 \<le> n \<and> n \<le> 13) \<or> (28 \<le> n \<and> n \<le> 32) \<or> n = 133 \<or> n = 160)"

fun split_acc :: "string \<Rightarrow> string \<Rightarrow> string list" where
  "split_acc cur [] = (if cur = [] then [] else [cur])"
| "split_acc cur (c # cs) =
     (if py_isspace c
      then (if cur = [] then split_acc [] cs else cur # split_acc [] cs)
      else split_acc (cur @ [c]) cs)"

definition py_split :: "string \<Rightarrow> string list" where
  \<comment> \<open>\<open>text.split()\<close>: the maximal runs of non-whitespace characters.\<close>
  "py_split text = split_acc [] text"

fun py_join :: "string list \<Rightarrow> string" where
  \<comment> \<open>\<open>" ".join(ws)\<close>\<close>
  "py_join [] = []"
| "py_join [w] = w"
| "py_join (w # ws) = w @ '' '' @ py_join ws"

definition py_range :: "int \<Rightarrow> int \<Rightarrow> int \<Rightarrow> error + int list" where
  \<comment> \<open>\<open>range(start, stop, step)\<close>: a zero step raises ValueError; the values are
      \<open>start + j * step\<close> while they stay before \<open>stop\<close> in the direction of the step.\<close>
  "py_range start stop step =
     (if step = 0 then Inl ValueError
      else if 0 < step
      then Inr (map (\<lambda>j. start + int j * step)
                  [0 ..< nat ((stop - start + step - 1) div step)])
      else Inr (map (\<lambda>j. start + int j * step)
                  [0 ..< nat ((start - stop - step - 1) div (- step))]))"

definition slice_bound :: "nat \<Rightarrow> int \<Rightarrow> nat" where
  \<comment> \<open>A slice bound is counted from the end when negative, then clamped to the list.\<close>
  "slice_bound n x = (if x < 0 then nat (max (x + int n) 0) else min (nat x) n)"

definition py_slice :: "'a list \<Rightarrow> int \<Rightarrow> int \<Rightarrow> 'a list" where
  \<comment> \<open>\<open>xs[a:b]\<close>\<close>
  "py_slice xs a b =
     (let lo = slice_bound (length xs) a; hi = slice_bound (length xs) b
      in take (hi - lo) (drop lo xs))"

section \<open>PDFExtractor.chunk_text\<close>

definition mk_chunk :: "string list \<Rightarrow> int \<Rightarrow> int \<Rightarrow> nat \<Rightarrow> pydict" where
  \<comment> \<open>The dict appended in one iteration; \<open>cid\<close> is \<open>len(chunks)\<close> at that moment.\<close>
  "mk_chunk words chunk_size i cid =
     [(''text'', PStr (py_join (py_slice words i (i + chunk_size)))),
      (''chunk_id'', PInt (int cid)),
      (''start_word'', PInt i),
      (''end_word'', PInt (min (i + chunk_size) (int (length words))))]"

fun chunk_loop :: "string list \<Rightarrow> int \<Rightarrow> int list \<Rightarrow> pydict list \<Rightarrow> pydict list" where
  \<comment> \<open>The body of \<open>for i in range(...)\<close>, run over the values of the range.\<close>
  "chunk_loop words chunk_size [] chunks = chunks"
| "chunk_loop words chunk_size (i # rest) chunks =
     chunk_loop words chunk_size rest
       (chunks @ [mk_chunk words chunk_size i (length chunks)])"

definition chunk_text :: "string \<Rightarrow> int \<Rightarrow> int \<Rightarrow> error + pydict list" where
  \<comment> \<open>After the loop the function prints the average chunk length,
      \<open>sum(...) // len(chunks)\<close>, which raises ZeroDivisionError on an empty list.\<close>
  "chunk_text text chunk_size overlap =
     (let words = py_split text
      in case py_range 0 (int (length words)) (chunk_size - overlap) of
           Inl e \<Rightarrow> Inl e
         | Inr starts \<Rightarrow>
             (let chunks = chunk_loop words chunk_size starts []
              in if length chunks = 0 then Inl ZeroDivisionError else Inr chunks))"

definition int_of :: "pydict \<Rightarrow> string \<Rightarrow> int option" where
  \<comment> \<open>Reads an integer field of a dict.\<close>
  "int_of d k = (case map_of d k of Some (PInt i) \<Rightarrow> Some i | _ \<Rightarrow> None)"

definition n_chunks :: "nat \<Rightarrow> int \<Rightarrow> nat" where
  \<comment> \<open>The length of \<open>range(0, N, s)\<close> for a positive step.\<close>
  "n_chunks N s = nat ((int N + s - 1) div s)"

section \<open>PDFExtractor.clean_text\<close>

function sub_ws_runs :: "string \<Rightarrow> string" where
  \<comment> \<open>\<open>re.sub(r'\s+', ' ', text)\<close>: every maximal run of whitespace becomes one space.\<close>
  "sub_ws_runs [] = []"
| "sub_ws_runs (c # cs) =
     (if py_isspace c then CHR '' '' # sub_ws_runs (dropWhile py_isspace cs)
      else c # sub_ws_runs cs)"
  by pat_completeness auto
termination
  by (relation "measure length") (auto simp: length_dropWhile_le less_Suc_eq_le)

definition py_strip :: "string \<Rightarrow> string" where
  \<comment> \<open>\<open>text.strip()\<close>: leading and trailing whitespace removed.\<close>
  "py_strip s = rev (dropWhile py_isspace (rev (dropWhile py_isspace s)))"

definition newline :: char where
  "newline = CHR 0x0A"

function sub_nl_runs :: "string \<Rightarrow> string" where
  \<comment> \<open>\<open>re.sub(r'\n\n+', '\n\n', text)\<close>: every maximal run of two or more newlines
      becomes two newlines.\<close>
  "sub_nl_runs [] = []"
| "sub_nl_runs [c] = [c]"
| "sub_nl_runs (c # d # cs) =
     (if c = newline \<and> d = newline
      then newline # newline # sub_nl_runs (dropWhile (\<lambda>x. x = newline) cs)
      else c # sub_nl_runs (d # cs))"
  by pat_completeness auto
termination
  by (relation "measure length") (auto simp: length_dropWhile_le less_Suc_eq_le le_SucI)

definition clean_text :: "string \<Rightarrow> string" where
  "clean_text text = sub_nl_runs (py_strip (sub_ws_runs text))"

fun normal :: "string \<Rightarrow> bool" where
  \<comment> \<open>Every whitespace character is a space and is not followed by whitespace.\<close>
  "normal [] = True"
| "normal [c] = (py_isspace c \<longrightarrow> c = CHR '' '')"
| "normal (a # b # cs) =
     ((py_isspace a \<longrightarrow> a = CHR '' '' \<and> \<not> py_isspace b) \<and> normal (b # cs))"

section \<open>Single precision\<close>

text \<open>
  The embedding service returns Python floats (double precision), modelled by the
  rationals they denote. Before any vector reaches the index it is converted with
  \<open>astype('float32')\<close>, and the index computes distances in single precision. Neither is
  computed here: both are parameters of the model. \<open>astype\<close> is the conversion of one
  number, into a type \<open>'f\<close> of single-precision values (rounded values, and the infinities
  that numbers beyond the single-precision range become). \<open>fvec_L2sqr\<close> is the routine of
  the index library that computes the squared Euclidean distance of two single-precision
  vectors; its result is the number it returns, or \<open>None\<close> when the result is not a
  number (an infinity after overflow, or NaN).
\<close>

record 'f f32_ops =
  astype :: "rat \<Rightarrow> 'f"
  fvec_L2sqr :: "'f list \<Rightarrow> 'f list \<Rightarrow> rat option"

definition l2sqr_exact :: "rat list \<Rightarrow> rat list \<Rightarrow> rat" where
  \<comment> \<open>The squared Euclidean distance, without rounding.\<close>
  "l2sqr_exact x y = sum_list (map (\<lambda>(a, b). (a - b) * (a - b)) (zip x y))"

definition exact_f32 :: "rat f32_ops" where
  \<comment> \<open>The instance used for concrete inputs below: on the small integers of those
      inputs single precision converts without rounding and computes the squared
      distance exactly.\<close>
  "exact_f32 = \<lparr>astype = (\<lambda>x. x), fvec_L2sqr = (\<lambda>x y. Some (l2sqr_exact x y))\<rparr>"

section \<open>EmbeddingManager.create_embeddings_batch\<close>

text \<open>
  The remote embedding service is a parameter of the model: a function from the list of
  texts of one call to either an error or the list of vectors of the response
  (\<open>[item.embedding for item in response.data]\<close>).
\<close>

type_synonym vec = "rat list"





section \<open>The vector index\<close>

text \<open>
  The index is \<open>faiss.IndexFlatL2\<close>, a library outside the repository. It is modelled
  from its documented behaviour: the index stores the single-precision vectors in
  insertion order; \<open>search\<close> computes the distance of the query to every stored vector
  with \<open>fvec_L2sqr\<close> and keeps the \<open>k\<close> smallest in a result heap whose places start as
  row number \<open>-1\<close> with the largest single-precision number; a row enters the heap only
  with a distance below what the heap holds, so a row whose distance is not a number
  below that largest number never enters, and a place that no row has taken is returned
  as it started. The result is in ascending order of distance; rows at equal distance
  are kept in insertion order. The Python wrapper asserts that the query has the
  dimension of the index and that \<open>k\<close> is positive.
\<close>

record 'f faiss_index =
  dim :: nat
  xb :: "'f list list"

definition ntotal :: "'f faiss_index \<Rightarrow> nat" where
  "ntotal idx = length (xb idx)"

definition flt_max :: rat where
  "flt_max = 340282346638528859811704183484516925440"

definition row_dist :: "'f f32_ops \<Rightarrow> 'f faiss_index \<Rightarrow> 'f list \<Rightarrow> nat \<Rightarrow> rat" where
  \<comment> \<open>The computed distance of a stored row, read as the largest single-precision
      number when it is not a number.\<close>
  "row_dist sp idx q row =
     (case fvec_L2sqr sp q (xb idx ! row) of None \<Rightarrow> flt_max | Some d \<Rightarrow> d)"

definition admitted_rows :: "'f f32_ops \<Rightarrow> 'f faiss_index \<Rightarrow> 'f list \<Rightarrow> nat list" where
  \<comment> \<open>The rows that can enter the result heap.\<close>
  "admitted_rows sp idx q = filter (\<lambda>row. row_dist sp idx q row < flt_max) [0 ..< ntotal idx]"

definition faiss_search ::
  "'f f32_ops \<Rightarrow> 'f faiss_index \<Rightarrow> 'f list \<Rightarrow> int \<Rightarrow> error + (rat list \<times> int list)" where
  \<comment> \<open>\<open>index.search(x, k)\<close> for a single query row: the pair (distances, labels).\<close>
  "faiss_search sp idx q k =
     (if length q = dim idx \<and> 0 < k
      then
        (let ranked = sort_key (row_dist sp idx q) (admitted_rows sp idx q);
             top = take (nat k) ranked;
             pad = nat k - length top
         in Inr (map (row_dist sp idx q) top @ replicate pad flt_max,
                 map int top @ replicate pad (- 1)))
      else Inl AssertionError)"

definition create_faiss_index :: "'f list list \<Rightarrow> error + 'f faiss_index" where
  \<comment> \<open>\<open>embeddings.shape[1]\<close> raises IndexError for the one-dimensional array that
      \<open>np.array([])\<close> is; otherwise all rows are added.\<close>
  "create_faiss_index embeddings =
     (case embeddings of
        [] \<Rightarrow> Inl IndexError
      | v # _ \<Rightarrow> Inr \<lparr>dim = length v, xb = embeddings\<rparr>)"

section \<open>Objects on the heap\<close>

text \<open>
  The chunk dicts are mutable objects shared between the retriever and its callers, so
  they live in a store: a heap is the list of all dict objects, an address is a position
  in it, and a new object is appended. The list \<open>self.chunks\<close> holds addresses.
\<close>

type_synonym addr = nat

type_synonym heap = "pydict list"

definition py_getitem :: "'a list \<Rightarrow> int \<Rightarrow> error + 'a" where
  \<comment> \<open>\<open>xs[i]\<close>: an index from \<open>-len(xs)\<close> to \<open>-1\<close> counts from the end; an index
      outside \<open>-len(xs) .. len(xs) - 1\<close> raises IndexError.\<close>
  "py_getitem xs i =
     (if 0 \<le> i \<and> i < int (length xs) then Inr (xs ! nat i)
      else if i < 0 \<and> - int (length xs) \<le> i then Inr (xs ! nat (int (length xs) + i))
      else Inl IndexError)"

section \<open>EmbeddingManager.save_index, load_index, index_exists\<close>

text \<open>
  Persistent storage maps a path to the artifact stored there: an index written by
  \<open>faiss.write_index\<close>, a chunk list written by \<open>pickle.dump\<close>, or any other content,
  given with the error that \<open>pickle.load\<close> raises on it (EOFError for an empty file).
  \<open>os.makedirs\<close> creates the directory of the index file, and rejects the empty
  directory name that \<open>os.path.dirname\<close> returns for a path without a slash. The chunk
  file is opened for writing after the index is written: this succeeds in the current
  directory and in the directory just created, and elsewhere when that directory exists
  at that moment, which the parameter \<open>dir_exists\<close> tells. Permissions are not modelled.
\<close>

datatype 'f artifact =
  FaissFile "'f faiss_index" | PickleFile "pydict list" | OtherFile error

type_synonym 'f storage = "string \<Rightarrow> 'f artifact option"

definition py_dirname :: "string \<Rightarrow> string" where
  \<comment> \<open>\<open>os.path.dirname\<close>: the part up to the last slash, without its trailing slashes
      unless it consists of slashes only.\<close>
  "py_dirname p =
     (let head = rev (dropWhile (\<lambda>c. c \<noteq> CHR ''/'') (rev p))
      in if head \<noteq> [] \<and> \<not> list_all (\<lambda>c. c = CHR ''/'') head
         then rev (dropWhile (\<lambda>c. c = CHR ''/'') (rev head))
         else head)"

definition save_index ::
  "(string \<Rightarrow> bool) \<Rightarrow> 'f storage \<Rightarrow> heap \<Rightarrow> 'f faiss_index \<Rightarrow> addr list \<Rightarrow> string \<Rightarrow> string
     \<Rightarrow> (error + unit) \<times> 'f storage" where
  \<comment> \<open>\<open>os.makedirs\<close>, then \<open>faiss.write_index\<close>, then \<open>open(chunks_path, 'wb')\<close> and
      \<open>pickle.dump\<close> of the chunk list, which writes the contents of the dicts.\<close>
  "save_index dir_exists fs h index chunks index_path chunks_path =
     (if py_dirname index_path = [] then (Inl FileNotFoundError, fs)
      else
        (let fs1 = fs(index_path \<mapsto> FaissFile index)
         in if py_dirname chunks_path = [] \<or> py_dirname chunks_path = py_dirname index_path
               \<or> dir_exists (py_dirname chunks_path)
            then (Inr (), fs1(chunks_path \<mapsto> PickleFile (map (\<lambda>a. h ! a) chunks)))
            else (Inl FileNotFoundError, fs1)))"

definition load_index ::
  "'f storage \<Rightarrow> heap \<Rightarrow> string \<Rightarrow> string \<Rightarrow> (error + 'f faiss_index \<times> addr list) \<times> heap" where
  \<comment> \<open>\<open>faiss.read_index\<close> raises RuntimeError when the file is missing or is not an
      index; \<open>open\<close> raises FileNotFoundError; \<open>pickle.load\<close> builds new dict objects, and
      on an index file it fails to read the leading bytes as an integer.\<close>
  "load_index fs h index_path chunks_path =
     (case fs index_path of
        Some (FaissFile index) \<Rightarrow>
          (case fs chunks_path of
             None \<Rightarrow> (Inl FileNotFoundError, h)
           | Some (PickleFile cs) \<Rightarrow>
               (Inr (index, [length h ..< length h + length cs]), h @ cs)
           | Some (OtherFile e) \<Rightarrow> (Inl e, h)
           | Some (FaissFile other) \<Rightarrow> (Inl ValueError, h))
      | _ \<Rightarrow> (Inl RuntimeError, h))"

definition index_exists :: "'f storage \<Rightarrow> string \<Rightarrow> string \<Rightarrow> bool" where
  "index_exists fs index_path chunks_path =
     (fs index_path \<noteq> None \<and> fs chunks_path \<noteq> None)"

section \<open>RAGRetriever\<close>

record 'f retriever =
  self_index :: "'f faiss_index"
  self_chunks :: "addr list"

text \<open>
  \<open>create_query_embedding\<close> calls the remote embedding service for one text and
  converts the vector to single precision; the service is a parameter \<open>embed_q\<close> of
  \<open>search\<close>.
\<close>

fun search_loop ::
  "heap \<Rightarrow> addr list \<Rightarrow> (int \<times> rat) list \<Rightarrow> nat \<Rightarrow> addr list \<Rightarrow> (error + addr list) \<times> heap" where
  \<comment> \<open>The loop over \<open>enumerate(zip(indices[0], distances[0]))\<close>. \<open>chunk\<close> is the address of
      the copy; the progress line reads \<open>chunk['source']\<close> and \<open>chunk['chunk_id']\<close>.\<close>
  "search_loop h chunks [] i results = (Inr results, h)"
| "search_loop h chunks ((idx, distance) # rest) i results =
     (case py_getitem chunks idx of
        Inl e \<Rightarrow> (Inl e, h)
      | Inr a \<Rightarrow>
          (let chunk = length h;
               h1 = h @ [h ! a];
               h2 = h1[chunk := dset (h1 ! chunk) ''distance'' (PFloat distance)];
               h3 = h2[chunk := dset (h2 ! chunk) ''rank'' (PInt (int i + 1))];
               results' = results @ [chunk]
           in case dget (h3 ! chunk) ''source'' of
                Inl e \<Rightarrow> (Inl e, h3)
              | Inr _ \<Rightarrow>
                  (case dget (h3 ! chunk) ''chunk_id'' of
                     Inl e \<Rightarrow> (Inl e, h3)
                   | Inr _ \<Rightarrow> search_loop h3 chunks rest (Suc i) results')))"

definition search ::
  "'f f32_ops \<Rightarrow> (string \<Rightarrow> error + vec) \<Rightarrow> 'f retriever \<Rightarrow> heap \<Rightarrow> string \<Rightarrow> int
     \<Rightarrow> (error + addr list) \<times> heap" where
  "search sp embed_q r h query k =
     (case embed_q query of
        Inl e \<Rightarrow> (Inl e, h)
      | Inr embedding \<Rightarrow>
          (case faiss_search sp (self_index r) (map (astype sp) embedding) k of
             Inl e \<Rightarrow> (Inl e, h)
           | Inr (distances, indices) \<Rightarrow>
               search_loop h (self_chunks r) (zip indices distances) 0 []))"

text \<open>
  \<open>generate_answer\<close> reads \<open>source\<close> and \<open>text\<close> of every context chunk, builds the prompt
  and calls the remote language model. Formatting the prompt and the remote call are one
  parameter \<open>chat\<close>, which receives the question, the (source, text) pairs in rank order
  and the model name.
\<close>

record completion =
  content :: string
  prompt_tokens :: int
  completion_tokens :: int
  total_tokens :: int

record answer_record =
  a_query :: string
  a_answer :: string
  a_sources :: "pyval list"
  a_num_chunks_used :: nat
  a_model :: string
  a_tokens_used :: "int \<times> int \<times> int"

type_synonym chat_service = "string \<Rightarrow> (pyval \<times> pyval) list \<Rightarrow> string \<Rightarrow> error + completion"

fun read_context :: "heap \<Rightarrow> addr list \<Rightarrow> error + (pyval \<times> pyval) list" where
  "read_context h [] = Inr []"
| "read_context h (chunk # rest) =
     (case dget (h ! chunk) ''source'' of
        Inl e \<Rightarrow> Inl e
      | Inr s \<Rightarrow>
          (case dget (h ! chunk) ''text'' of
             Inl e \<Rightarrow> Inl e
           | Inr t \<Rightarrow>
               (case read_context h rest of
                  Inl e \<Rightarrow> Inl e
                | Inr ctx \<Rightarrow> Inr ((s, t) # ctx))))"

definition generate_answer ::
  "chat_service \<Rightarrow> heap \<Rightarrow> string \<Rightarrow> addr list \<Rightarrow> string \<Rightarrow> error + answer_record" where
  "generate_answer chat h query context_chunks model =
     (case read_context h context_chunks of
        Inl e \<Rightarrow> Inl e
      | Inr ctx \<Rightarrow>
          (case chat query ctx model of
             Inl e \<Rightarrow> Inl e
           | Inr c \<Rightarrow>
               Inr \<lparr>a_query = query, a_answer = content c, a_sources = map fst ctx,
                    a_num_chunks_used = length context_chunks, a_model = model,
                    a_tokens_used = (prompt_tokens c, completion_tokens c, total_tokens c)\<rparr>))"

definition ask ::
  "'f f32_ops \<Rightarrow> (string \<Rightarrow> error + vec) \<Rightarrow> chat_service \<Rightarrow> 'f retriever \<Rightarrow> heap
     \<Rightarrow> string \<Rightarrow> int \<Rightarrow> string \<Rightarrow> (error + answer_record) \<times> heap" where
  "ask sp embed_q chat r h query k model =
     (case search sp embed_q r h query k of
        (Inl e, h') \<Rightarrow> (Inl e, h')
      | (Inr relevant_chunks, h') \<Rightarrow>
          (generate_answer chat h' query relevant_chunks model, h'))"

text \<open>
  A serving session is a sequence of query-time calls on one retriever; an exception of
  one call is handled by the caller and the next call runs on the heap as it then is.
\<close>

datatype call = Search string int | Ask string int string

fun run_calls ::
  "'f f32_ops \<Rightarrow> (string \<Rightarrow> error + vec) \<Rightarrow> chat_service \<Rightarrow> 'f retriever \<Rightarrow> heap
     \<Rightarrow> call list \<Rightarrow> heap" where
  "run_calls sp embed_q chat r h [] = h"
| "run_calls sp embed_q chat r h (Search query k # rest) =
     run_calls sp embed_q chat r (snd (search sp embed_q r h query k)) rest"
| "run_calls sp embed_q chat r h (Ask query k model # rest) =
     run_calls sp embed_q chat r (snd (ask sp embed_q chat r h query k model)) rest"

fun result_dicts :: "pydict list \<Rightarrow> (int \<times> rat) list \<Rightarrow> nat \<Rightarrow> error + pydict list" where
  \<comment> \<open>The dicts that the loop of \<open>search\<close> builds from the chunk dicts \<open>C\<close>, as values.\<close>
  "result_dicts C [] i = Inr []"
| "result_dicts C ((idx, distance) # rest) i =
     (case py_getitem C idx of
        Inl e \<Rightarrow> Inl e
      | Inr c \<Rightarrow>
          (let chunk = dset (dset c ''distance'' (PFloat distance)) ''rank'' (PInt (int i + 1))
           in case dget chunk ''source'' of
                Inl e \<Rightarrow> Inl e
              | Inr _ \<Rightarrow>
                  (case dget chunk ''chunk_id'' of
                     Inl e \<Rightarrow> Inl e
                   | Inr _ \<Rightarrow>
                       (case result_dicts C rest (Suc i) of
                          Inl e \<Rightarrow> Inl e
                        | Inr ds \<Rightarrow> Inr (chunk # ds)))))"

definition result_view :: "(error + addr list) \<times> heap \<Rightarrow> error + pydict list" where
  \<comment> \<open>The outcome of a call as values: the error, or the dicts at the returned addresses.\<close>
  "result_view out = (case out of (Inl e, h) \<Rightarrow> Inl e | (Inr res, h) \<Rightarrow> Inr (map (\<lambda>a. h ! a) res))"

section \<open>Properties of the chunker\<close>

lemma chunk_loop_eq:
  "chunk_loop words W starts acc =
     acc @ map (\<lambda>j. mk_chunk words W (starts ! j) (length acc + j)) [0 ..< length starts]"
proof (induction starts arbitrary: acc)
  case Nil
  then show ?case by simp
next
  case (Cons i rest)
  have "map (\<lambda>j. mk_chunk words W ((i # rest) ! j) (length acc + j)) [0 ..< length (i # rest)]
      = mk_chunk words W i (length acc) #
        map (\<lambda>j. mk_chunk words W (rest ! j) (Suc (length acc) + j)) [0 ..< length rest]"
    by (simp add: upt_conv_Cons map_Suc_upt [symmetric] del: upt_Suc)
  then show ?case using Cons.IH [of "acc @ [mk_chunk words W i (length acc)]"] by simp
qed


lemma chunk_text_eq:
  assumes "py_split text \<noteq> []" "V < W"
  shows "chunk_text text W V =
     Inr (map (\<lambda>j. mk_chunk (py_split text) W (int j * (W - V)) j)
            [0 ..< n_chunks (length (py_split text)) (W - V)])"
proof -
  let ?N = "length (py_split text)"
  have "0 < ?N" using assms by simp
  then have "W - V \<le> int ?N + (W - V) - 1" by simp
  moreover have "0 < W - V" using assms(2) by simp
  ultimately have "0 < (int ?N + (W - V) - 1) div (W - V)"
    using pos_imp_zdiv_pos_iff by blast
  then have "0 < n_chunks ?N (W - V)" by (simp add: n_chunks_def)
  then show ?thesis using assms(2)
    by (simp add: chunk_text_def py_range_def chunk_loop_eq n_chunks_def Let_def o_def cong: map_cong)
qed

lemma int_of_mk_chunk:
  "int_of (mk_chunk words W i cid) ''start_word'' = Some i"
  "int_of (mk_chunk words W i cid) ''end_word'' = Some (min (i + W) (int (length words)))"
  "int_of (mk_chunk words W i cid) ''chunk_id'' = Some (int cid)"
  "dget (mk_chunk words W i cid) ''text'' = Inr (PStr (py_join (py_slice words i (i + W))))"
  by (simp_all add: int_of_def mk_chunk_def dget_def)

lemma py_slice_window:
  assumes "0 \<le> a" "0 \<le> W"
  shows "py_slice xs a (a + W) = take (nat W) (drop (nat a) xs)"
proof (cases "nat a \<le> length xs")
  case True
  then show ?thesis using assms
    by (auto simp: py_slice_def slice_bound_def Let_def min_def nat_add_distrib intro!: take_all)
next
  case False
  then show ?thesis using assms
    by (simp add: py_slice_def slice_bound_def Let_def)
qed

lemma n_chunks_gt:
  assumes "0 < s" "p < N"
  shows "nat (int p div s) < n_chunks N s"
proof -
  have "int p div s \<le> (int N - 1) div s" using assms by (intro zdiv_mono1) auto
  also have "\<dots> < (int N - 1) div s + 1" by simp
  also have "\<dots> = (int N - 1 + s) div s" using assms by simp
  finally have "int p div s < (int N + s - 1) div s" by (simp add: algebra_simps)
  moreover have "0 \<le> int p div s" using assms by (simp add: pos_imp_zdiv_nonneg_iff)
  ultimately show ?thesis by (simp add: n_chunks_def)
qed

lemma n_chunks_start_lt:
  assumes "0 < s" "j < n_chunks N s"
  shows "int j * s < int N"
proof -
  have "int j < (int N + s - 1) div s" using assms by (simp add: n_chunks_def)
  then have "int j + 1 \<le> (int N + s - 1) div s" by simp
  then have "(int j + 1) * s \<le> (int N + s - 1) div s * s" using assms by simp
  also have "\<dots> \<le> int N + s - 1"
  proof -
    have "int N + s - 1 = (int N + s - 1) div s * s + (int N + s - 1) mod s" by simp
    moreover have "0 \<le> (int N + s - 1) mod s" using assms by simp
    ultimately show ?thesis by linarith
  qed
  finally show ?thesis by (simp add: algebra_simps)
qed

lemma chunk_text_nth:
  assumes "py_split text \<noteq> []" "V < W"
  shows "\<exists>chunks. chunk_text text W V = Inr chunks \<and>
           length chunks = n_chunks (length (py_split text)) (W - V) \<and>
           (\<forall>j<length chunks. chunks ! j = mk_chunk (py_split text) W (int j * (W - V)) j)"
  using chunk_text_eq [OF assms] by simp

lemma div_window:
  fixes s :: int
  assumes "0 < s"
  shows "int (nat (int p div s)) * s \<le> int p" "int p < int (nat (int p div s)) * s + s"
proof -
  have nn: "0 \<le> int p div s" using assms by (simp add: pos_imp_zdiv_nonneg_iff)
  then have j: "int (nat (int p div s)) = int p div s" by simp
  have e: "int p = int p div s * s + int p mod s" by simp
  have m0: "0 \<le> int p mod s" and m1: "int p mod s < s" using assms by simp_all
  show "int (nat (int p div s)) * s \<le> int p" unfolding j using e m0 by linarith
  show "int p < int (nat (int p div s)) * s + s" unfolding j using e m1 by linarith
qed

text \<open>
  Claim C5. For a text with at least one word and \<open>0 \<le> V < W\<close>, \<open>chunk_text\<close> returns
  a non-empty chunk list in which chunk \<open>j\<close> has \<open>chunk_id = j\<close>, \<open>start_word = j * (W - V)\<close>,
  \<open>end_word = min (start_word + W) N\<close> and as text the words of that window joined by
  spaces. Consecutive chunks start \<open>W - V\<close> words apart and the next chunk starts no
  later than the previous one ends (no gap), and every word position below \<open>N\<close> lies in
  the range of some chunk. For a text of 2500 words, window 1000 and overlap 200, the
  starts are 0, 800, 1600, 2400 and the last chunk spans 2400 to 2500.
\<close>

theorem chunk_text_covers:
  "(py_split text \<noteq> [] \<and> 0 \<le> V \<and> V < W \<longrightarrow>
      (\<exists>chunks. chunk_text text W V = Inr chunks \<and> chunks \<noteq> [] \<and>
         (\<forall>j<length chunks.
            int_of (chunks ! j) ''chunk_id'' = Some (int j) \<and>
            int_of (chunks ! j) ''start_word'' = Some (int j * (W - V)) \<and>
            int_of (chunks ! j) ''end_word'' =
              Some (min (int j * (W - V) + W) (int (length (py_split text)))) \<and>
            dget (chunks ! j) ''text'' =
              Inr (PStr (py_join (take (nat W) (drop (j * nat (W - V)) (py_split text)))))) \<and>
         (\<forall>j. Suc j < length chunks \<longrightarrow>
            (\<exists>a b a'. int_of (chunks ! j) ''start_word'' = Some a \<and>
               int_of (chunks ! j) ''end_word'' = Some b \<and>
               int_of (chunks ! Suc j) ''start_word'' = Some a' \<and>
               a' = a + (W - V) \<and> a' \<le> b)) \<and>
         (\<forall>p<length (py_split text). \<exists>j<length chunks. \<exists>a b.
            int_of (chunks ! j) ''start_word'' = Some a \<and>
            int_of (chunks ! j) ''end_word'' = Some b \<and> a \<le> int p \<and> int p < b))) \<and>
   (length (py_split text) = 2500 \<longrightarrow>
      (\<exists>chunks. chunk_text text 1000 200 = Inr chunks \<and>
         map (\<lambda>c. int_of c ''start_word'') chunks = [Some 0, Some 800, Some 1600, Some 2400] \<and>
         int_of (last chunks) ''start_word'' = Some 2400 \<and>
         int_of (last chunks) ''end_word'' = Some 2500))"
proof (intro conjI impI)
  assume h: "py_split text \<noteq> [] \<and> 0 \<le> V \<and> V < W"
  let ?ws = "py_split text"
  let ?N = "length ?ws"
  let ?s = "W - V"
  have s: "0 < ?s" and W: "0 < W" and sW: "?s \<le> W" using h by auto
  obtain chunks where ct: "chunk_text text W V = Inr chunks"
    and len: "length chunks = n_chunks ?N ?s"
    and nth: "\<And>j. j < length chunks \<Longrightarrow> chunks ! j = mk_chunk ?ws W (int j * ?s) j"
    using chunk_text_nth [of "text" V W] h by blast
  have lt: "\<And>j. j < length chunks \<Longrightarrow> int j * ?s < int ?N"
    using n_chunks_start_lt [OF s] len by simp
  have ne: "chunks \<noteq> []"
    using n_chunks_gt [OF s, of 0 ?N] h len by auto
  have fields: "\<forall>j<length chunks.
            int_of (chunks ! j) ''chunk_id'' = Some (int j) \<and>
            int_of (chunks ! j) ''start_word'' = Some (int j * ?s) \<and>
            int_of (chunks ! j) ''end_word'' = Some (min (int j * ?s + W) (int ?N)) \<and>
            dget (chunks ! j) ''text'' =
              Inr (PStr (py_join (take (nat W) (drop (j * nat ?s) ?ws))))"
  proof (intro allI impI)
    fix j assume j: "j < length chunks"
    have "0 \<le> int j * ?s" using s by simp
    then have "py_slice ?ws (int j * ?s) (int j * ?s + W) = take (nat W) (drop (nat (int j * ?s)) ?ws)"
      using py_slice_window [of "int j * ?s" W ?ws] W by simp
    moreover have "nat (int j * ?s) = j * nat ?s" using s by (simp add: nat_mult_distrib)
    ultimately show "int_of (chunks ! j) ''chunk_id'' = Some (int j) \<and>
            int_of (chunks ! j) ''start_word'' = Some (int j * ?s) \<and>
            int_of (chunks ! j) ''end_word'' = Some (min (int j * ?s + W) (int ?N)) \<and>
            dget (chunks ! j) ''text'' =
              Inr (PStr (py_join (take (nat W) (drop (j * nat ?s) ?ws))))"
      using nth [OF j] by (simp add: int_of_mk_chunk)
  qed
  have step: "\<forall>j. Suc j < length chunks \<longrightarrow>
            (\<exists>a b a'. int_of (chunks ! j) ''start_word'' = Some a \<and>
               int_of (chunks ! j) ''end_word'' = Some b \<and>
               int_of (chunks ! Suc j) ''start_word'' = Some a' \<and>
               a' = a + ?s \<and> a' \<le> b)"
  proof (intro allI impI)
    fix j assume j: "Suc j < length chunks"
    then have j0: "j < length chunks" by simp
    have a: "int (Suc j) * ?s = int j * ?s + ?s" by (simp add: algebra_simps)
    have "int (Suc j) * ?s < int ?N" using lt [OF j] .
    then have "int j * ?s + ?s \<le> min (int j * ?s + W) (int ?N)" using sW a by simp
    then show "\<exists>a b a'. int_of (chunks ! j) ''start_word'' = Some a \<and>
               int_of (chunks ! j) ''end_word'' = Some b \<and>
               int_of (chunks ! Suc j) ''start_word'' = Some a' \<and>
               a' = a + ?s \<and> a' \<le> b"
      using fields j j0 a by simp
  qed
  have cover: "\<forall>p<?N. \<exists>j<length chunks. \<exists>a b.
            int_of (chunks ! j) ''start_word'' = Some a \<and>
            int_of (chunks ! j) ''end_word'' = Some b \<and> a \<le> int p \<and> int p < b"
  proof (intro allI impI)
    fix p assume p: "p < ?N"
    let ?j = "nat (int p div ?s)"
    have jl: "?j < length chunks" using n_chunks_gt [OF s p] len by simp
    have lo: "int ?j * ?s \<le> int p" using div_window(1) [OF s] .
    have "int p < int ?j * ?s + ?s" using div_window(2) [OF s] .
    then have hi: "int p < min (int ?j * ?s + W) (int ?N)" using sW p by simp
    show "\<exists>j<length chunks. \<exists>a b.
            int_of (chunks ! j) ''start_word'' = Some a \<and>
            int_of (chunks ! j) ''end_word'' = Some b \<and> a \<le> int p \<and> int p < b"
      using fields jl lo hi by blast
  qed
  show "\<exists>chunks. chunk_text text W V = Inr chunks \<and> chunks \<noteq> [] \<and>
         (\<forall>j<length chunks.
            int_of (chunks ! j) ''chunk_id'' = Some (int j) \<and>
            int_of (chunks ! j) ''start_word'' = Some (int j * (W - V)) \<and>
            int_of (chunks ! j) ''end_word'' =
              Some (min (int j * (W - V) + W) (int (length (py_split text)))) \<and>
            dget (chunks ! j) ''text'' =
              Inr (PStr (py_join (take (nat W) (drop (j * nat (W - V)) (py_split text)))))) \<and>
         (\<forall>j. Suc j < length chunks \<longrightarrow>
            (\<exists>a b a'. int_of (chunks ! j) ''start_word'' = Some a \<and>
               int_of (chunks ! j) ''end_word'' = Some b \<and>
               int_of (chunks ! Suc j) ''start_word'' = Some a' \<and>
               a' = a + (W - V) \<and> a' \<le> b)) \<and>
         (\<forall>p<length (py_split text). \<exists>j<length chunks. \<exists>a b.
            int_of (chunks ! j) ''start_word'' = Some a \<and>
            int_of (chunks ! j) ''end_word'' = Some b \<and> a \<le> int p \<and> int p < b)"
    using ct ne fields step cover by blast
next
  assume N: "length (py_split text) = 2500"
  then have ne: "py_split text \<noteq> []" by auto
  have u: "[0 ..< 4] = [0, Suc 0, 2, 3]" by (simp add: upt_rec)
  have m: "n_chunks 2500 (1000 - 200) = 4" by (simp add: n_chunks_def)
  have "chunk_text text 1000 200 =
     Inr (map (\<lambda>j. mk_chunk (py_split text) 1000 (int j * 800) j) [0, Suc 0, 2, 3])"
    using chunk_text_eq [OF ne, of 200 1000] N m u by simp
  then show "\<exists>chunks. chunk_text text 1000 200 = Inr chunks \<and>
         map (\<lambda>c. int_of c ''start_word'') chunks = [Some 0, Some 800, Some 1600, Some 2400] \<and>
         int_of (last chunks) ''start_word'' = Some 2400 \<and>
         int_of (last chunks) ''end_word'' = Some 2500"
    using N by (simp add: int_of_mk_chunk)
qed

lemma split_acc_rep: "split_acc [] (concat (replicate n ''a '')) = replicate n ''a''"
  by (induction n) (simp_all add: py_isspace_def)

lemma py_split_rep: "py_split (concat (replicate n ''a '')) = replicate n ''a''"
  by (simp add: py_split_def split_acc_rep)

theorem chunk_text_covers_witness:
  "py_split ''a b c'' \<noteq> [] \<and> (0::int) \<le> 1 \<and> (1::int) < 2 \<and>
   length (py_split (concat (replicate 2500 ''a ''))) = 2500 \<and>
   (\<exists>chunks. chunk_text ''a b c'' 2 1 = Inr chunks \<and> chunks \<noteq> [] \<and>
      (\<forall>p<length (py_split ''a b c''). \<exists>j<length chunks. \<exists>a b.
            int_of (chunks ! j) ''start_word'' = Some a \<and>
            int_of (chunks ! j) ''end_word'' = Some b \<and> a \<le> int p \<and> int p < b)) \<and>
   (\<exists>chunks. chunk_text (concat (replicate 2500 ''a '')) 1000 200 = Inr chunks \<and>
         map (\<lambda>c. int_of c ''start_word'') chunks = [Some 0, Some 800, Some 1600, Some 2400] \<and>
         int_of (last chunks) ''start_word'' = Some 2400 \<and>
         int_of (last chunks) ''end_word'' = Some 2500)"
proof -
  have h1: "py_split ''a b c'' \<noteq> [] \<and> (0::int) \<le> 1 \<and> (1::int) < 2"
    by (simp add: py_split_def py_isspace_def)
  have h2: "length (py_split (concat (replicate 2500 ''a ''))) = 2500"
    by (simp only: py_split_rep length_replicate)
  note small = chunk_text_covers [of "''a b c''" 1 2, THEN conjunct1, THEN mp, OF h1]
  note large = chunk_text_covers [of "concat (replicate 2500 ''a '')" 200 1000,
      THEN conjunct2, THEN mp, OF h2]
  from small obtain cs where "chunk_text ''a b c'' 2 1 = Inr cs \<and> cs \<noteq> [] \<and>
      (\<forall>p<length (py_split ''a b c''). \<exists>j<length cs. \<exists>a b.
            int_of (cs ! j) ''start_word'' = Some a \<and>
            int_of (cs ! j) ''end_word'' = Some b \<and> a \<le> int p \<and> int p < b)"
    by auto
  then show ?thesis using h1 h2 large by blast
qed


text \<open>
  Claim C2. The claim says that the empty text gives an empty chunk list without an
  error. In the source the loop does leave \<open>chunks\<close> empty, but the progress line after
  the loop divides by \<open>len(chunks)\<close>: with the default window 1000 and overlap 200 the
  call on the empty text raises ZeroDivisionError instead of returning.
\<close>

theorem chunk_text_empty_raises:
  "chunk_text [] 1000 200 = Inl ZeroDivisionError"
  by (simp add: chunk_text_def py_split_def py_range_def)

lemma chunk_text_no_words:
  "py_split text = [] \<Longrightarrow>
     chunk_text text W V = Inl (if W = V then ValueError else ZeroDivisionError)"
  by (simp add: chunk_text_def py_range_def)

text \<open>
  Claim C3, as stated, fails: no statement of the source raises InvalidConfigError. With
  window 3 and overlap 3 the call ends in another error.
\<close>

theorem chunk_text_equal_window_counterexample:
  "chunk_text ''a b'' 3 3 \<noteq> Inl InvalidConfigError"
  by (simp add: chunk_text_def py_range_def)

text \<open>
  Claim C3, amended. When the window equals the overlap, the step of the \<open>range\<close>
  is zero and \<open>chunk_text\<close> ends with Python's ValueError for every text: it neither
  loops nor returns a chunk list.
\<close>

theorem chunk_text_zero_step:
  "chunk_text text W W = Inl ValueError"
  by (simp add: chunk_text_def py_range_def)


section \<open>Properties of the text cleaner\<close>

lemma sub_ws_runs_Nil_iff: "sub_ws_runs s = [] \<longleftrightarrow> s = []"
  by (cases s) auto

lemma sub_ws_runs_hd:
  "s \<noteq> [] \<Longrightarrow> py_isspace (hd (sub_ws_runs s)) = py_isspace (hd s)"
  by (cases s) (auto simp: py_isspace_def)

lemma normal_Cons_space:
  "normal r \<Longrightarrow> r = [] \<or> \<not> py_isspace (hd r) \<Longrightarrow> normal (CHR '' '' # r)"
  by (cases r) auto

lemma normal_Cons_other:
  "normal r \<Longrightarrow> \<not> py_isspace c \<Longrightarrow> normal (c # r)"
  by (cases r) auto

lemma normal_sub_ws_runs: "normal (sub_ws_runs s)"
proof (induction s rule: sub_ws_runs.induct)
  case 1
  show ?case by simp
next
  case (2 c cs)
  show ?case
  proof (cases "py_isspace c")
    case True
    let ?t = "dropWhile py_isspace cs"
    have "sub_ws_runs ?t = [] \<or> \<not> py_isspace (hd (sub_ws_runs ?t))"
    proof (cases "?t = []")
      case True
      then show ?thesis by (simp del: dropWhile_eq_Nil_conv)
    next
      case False
      then have "\<not> py_isspace (hd ?t)" by (rule hd_dropWhile)
      then show ?thesis using False by (simp add: sub_ws_runs_hd)
    qed
    then show ?thesis using True 2(1) by (simp add: normal_Cons_space)
  next
    case False
    then show ?thesis using 2(2) by (simp add: normal_Cons_other)
  qed
qed

lemma normal_tl: "normal (a # t) \<Longrightarrow> normal t"
  by (cases t) auto

lemma normal_dropWhile: "normal t \<Longrightarrow> normal (dropWhile P t)"
  by (induction t) (auto dest: normal_tl)

lemma normal_prefix: "normal (x @ y) \<Longrightarrow> normal x"
proof (induction x rule: normal.induct)
  case 1
  show ?case by simp
next
  case (2 c)
  then show ?case by (cases y) auto
next
  case (3 a b cs)
  then show ?case by auto
qed

lemma strip_suffix_decomp:
  "u = rev (dropWhile P (rev u)) @ rev (takeWhile P (rev u))"
proof -
  have "rev (rev u) = rev (takeWhile P (rev u) @ dropWhile P (rev u))"
    by (simp only: takeWhile_dropWhile_id)
  then show ?thesis by (simp only: rev_rev_ident rev_append)
qed

lemma normal_py_strip: "normal t \<Longrightarrow> normal (py_strip t)"
proof -
  assume "normal t"
  then have n: "normal (dropWhile py_isspace t)" by (rule normal_dropWhile)
  let ?v = "dropWhile py_isspace t"
  have "?v = py_strip t @ rev (takeWhile py_isspace (rev ?v))"
    unfolding py_strip_def by (rule strip_suffix_decomp)
  then show ?thesis using n normal_prefix by metis
qed

lemma normal_spaces: "normal t \<Longrightarrow> c \<in> set t \<Longrightarrow> py_isspace c \<Longrightarrow> c = CHR '' ''"
  by (induction t rule: normal.induct) auto

lemma normal_no_adjacent:
  "normal t \<Longrightarrow> Suc i < length t \<Longrightarrow> \<not> (py_isspace (t ! i) \<and> py_isspace (t ! Suc i))"
proof (induction t arbitrary: i rule: normal.induct)
  case 1
  then show ?case by simp
next
  case (2 c)
  then show ?case by simp
next
  case (3 a b cs)
  show ?case
  proof (cases i)
    case 0
    then show ?thesis using 3(2) by auto
  next
    case (Suc k)
    then show ?thesis using 3 by auto
  qed
qed

lemma sub_ws_runs_normal: "normal t \<Longrightarrow> sub_ws_runs t = t"
proof (induction t rule: normal.induct)
  case 1
  show ?case by simp
next
  case (2 c)
  then show ?case by auto
next
  case (3 a b cs)
  then show ?case by auto
qed

lemma py_strip_ends:
  "py_strip u \<noteq> [] \<Longrightarrow> \<not> py_isspace (hd (py_strip u)) \<and> \<not> py_isspace (last (py_strip u))"
proof -
  assume ne: "py_strip u \<noteq> []"
  let ?v = "dropWhile py_isspace u"
  let ?w = "dropWhile py_isspace (rev ?v)"
  have w: "?w \<noteq> []" using ne by (simp add: py_strip_def)
  then have "\<not> py_isspace (hd ?w)" by (rule hd_dropWhile)
  then have l: "\<not> py_isspace (last (py_strip u))" using w by (simp add: py_strip_def last_rev)
  have d: "?v = py_strip u @ rev (takeWhile py_isspace (rev ?v))"
    unfolding py_strip_def by (rule strip_suffix_decomp)
  then have "?v \<noteq> []" using ne by (metis append_is_Nil_conv)
  then have "\<not> py_isspace (hd ?v)" by (rule hd_dropWhile)
  moreover have "hd ?v = hd (py_strip u)" using d ne by (metis hd_append2)
  ultimately show ?thesis using l by simp
qed

lemma dropWhile_hd_id: "xs \<noteq> [] \<Longrightarrow> \<not> P (hd xs) \<Longrightarrow> dropWhile P xs = xs"
  by (cases xs) auto

lemma py_strip_fixed:
  "r = [] \<or> (\<not> py_isspace (hd r) \<and> \<not> py_isspace (last r)) \<Longrightarrow> py_strip r = r"
proof (cases "r = []")
  case True
  then show ?thesis by (simp add: py_strip_def)
next
  case False
  assume "r = [] \<or> (\<not> py_isspace (hd r) \<and> \<not> py_isspace (last r))"
  then have h: "\<not> py_isspace (hd r)" and l: "\<not> py_isspace (last r)" using False by auto
  have a: "dropWhile py_isspace r = r" using False h by (rule dropWhile_hd_id)
  have "hd (rev r) = last r" using False by (simp add: hd_rev)
  then have b: "dropWhile py_isspace (rev r) = rev r" using l False
    by (intro dropWhile_hd_id) simp_all
  show ?thesis by (simp add: py_strip_def a b)
qed

lemma sub_nl_runs_id: "newline \<notin> set t \<Longrightarrow> sub_nl_runs t = t"
  by (induction t rule: sub_nl_runs.induct) auto

lemma normal_no_newline: "normal t \<Longrightarrow> newline \<notin> set t"
proof
  assume "normal t" "newline \<in> set t"
  then have "newline = CHR '' ''" by (rule normal_spaces) (simp add: py_isspace_def newline_def)
  then show False by (simp add: newline_def)
qed

lemma clean_text_eq: "clean_text s = py_strip (sub_ws_runs s)"
  by (simp add: clean_text_def sub_nl_runs_id normal_no_newline normal_py_strip normal_sub_ws_runs)

lemma normal_clean_text: "normal (clean_text s)"
  by (simp add: clean_text_eq normal_py_strip normal_sub_ws_runs)

text \<open>
  Claim C10. \<open>clean_text\<close> is idempotent; its output has no two adjacent whitespace
  characters and neither starts nor ends with whitespace; and the last step (collapsing
  runs of newlines) leaves the stripped text unchanged.
\<close>

theorem clean_text_idempotent:
  "clean_text (clean_text s) = clean_text s \<and>
   (\<forall>i. Suc i < length (clean_text s) \<longrightarrow>
      \<not> (py_isspace (clean_text s ! i) \<and> py_isspace (clean_text s ! Suc i))) \<and>
   (clean_text s \<noteq> [] \<longrightarrow>
      \<not> py_isspace (hd (clean_text s)) \<and> \<not> py_isspace (last (clean_text s))) \<and>
   sub_nl_runs (py_strip (sub_ws_runs s)) = py_strip (sub_ws_runs s)"
proof (intro conjI allI impI)
  let ?r = "clean_text s"
  have ends: "?r = [] \<or> (\<not> py_isspace (hd ?r) \<and> \<not> py_isspace (last ?r))"
    using py_strip_ends [of "sub_ws_runs s"] by (auto simp: clean_text_eq)
  have "clean_text ?r = py_strip (sub_ws_runs ?r)" by (rule clean_text_eq)
  also have "\<dots> = py_strip ?r" by (simp add: sub_ws_runs_normal normal_clean_text)
  also have "\<dots> = ?r" using ends by (rule py_strip_fixed)
  finally show "clean_text ?r = ?r" .
  show "sub_nl_runs (py_strip (sub_ws_runs s)) = py_strip (sub_ws_runs s)"
    using clean_text_eq [of s] by (simp add: clean_text_def)
next
  fix i assume "Suc i < length (clean_text s)"
  then show "\<not> (py_isspace (clean_text s ! i) \<and> py_isspace (clean_text s ! Suc i))"
    using normal_no_adjacent [OF normal_clean_text] by blast
next
  assume "clean_text s \<noteq> []"
  then have "\<not> py_isspace (hd (clean_text s)) \<and> \<not> py_isspace (last (clean_text s))"
    using py_strip_ends [of "sub_ws_runs s"] by (simp add: clean_text_eq)
  then show "\<not> py_isspace (hd (clean_text s))" "\<not> py_isspace (last (clean_text s))" by simp_all
qed

theorem clean_text_idempotent_witness:
  "clean_text (''  a '' @ [newline, newline, CHR 0x09] @ ''b '') = ''a b'' \<and>
   clean_text (clean_text (''  a '' @ [newline, newline, CHR 0x09] @ ''b '')) = ''a b'' \<and>
   Suc 0 < length (clean_text (''  a '' @ [newline, newline, CHR 0x09] @ ''b '')) \<and>
   \<not> (py_isspace (clean_text (''  a '' @ [newline, newline, CHR 0x09] @ ''b '') ! 0) \<and>
      py_isspace (clean_text (''  a '' @ [newline, newline, CHR 0x09] @ ''b '') ! Suc 0)) \<and>
   \<not> py_isspace (hd (clean_text (''  a '' @ [newline, newline, CHR 0x09] @ ''b ''))) \<and>
   \<not> py_isspace (last (clean_text (''  a '' @ [newline, newline, CHR 0x09] @ ''b '')))"
proof -
  let ?x = "''  a '' @ [newline, newline, CHR 0x09] @ ''b ''"
  have v: "clean_text ?x = ''a b''"
    by (simp add: clean_text_def py_strip_def py_isspace_def newline_def)
  have len: "Suc 0 < length (clean_text ?x)" and ne: "clean_text ?x \<noteq> []"
    unfolding v by simp_all
  note t = clean_text_idempotent [of ?x]
  have "clean_text (clean_text ?x) = clean_text ?x" using t by (rule conjunct1)
  then have idem: "clean_text (clean_text ?x) = ''a b''" by (simp only: v)
  have adj: "\<not> (py_isspace (clean_text ?x ! 0) \<and> py_isspace (clean_text ?x ! Suc 0))"
    using t len by blast
  have ends: "\<not> py_isspace (hd (clean_text ?x)) \<and> \<not> py_isspace (last (clean_text ?x))"
    using t ne by blast
  show ?thesis using v idem adj ends len by blast
qed

section \<open>Properties of the embedding generator\<close>











section \<open>Properties of the retriever\<close>


lemma py_getitem_map:
  "py_getitem (map f xs) i = (case py_getitem xs i of Inl e \<Rightarrow> Inl e | Inr x \<Rightarrow> Inr (f x))"
proof (cases "0 \<le> i \<and> i < int (length xs)")
  case True
  then have "nat i < length xs" by linarith
  then show ?thesis using True by (simp add: py_getitem_def)
next
  case False
  show ?thesis
  proof (cases "i < 0 \<and> - int (length xs) \<le> i")
    case True
    then have "nat (int (length xs) + i) < length xs" by linarith
    then show ?thesis using True \<open>\<not> (0 \<le> i \<and> i < int (length xs))\<close>
      by (simp add: py_getitem_def)
  next
    case False
    then show ?thesis using \<open>\<not> (0 \<le> i \<and> i < int (length xs))\<close>
      by (auto simp: py_getitem_def)
  qed
qed

lemma py_getitem_row:
  "row < length xs \<Longrightarrow> py_getitem xs (int row) = Inr (xs ! row)"
  by (simp add: py_getitem_def)

lemma search_loop_Cons:
  assumes "py_getitem cs idx = Inr a"
  shows "search_loop h cs ((idx, distance) # rest) i res =
     (case dget (dset (dset (h ! a) ''distance'' (PFloat distance)) ''rank'' (PInt (int i + 1)))
             ''source'' of
        Inl e \<Rightarrow>
          (Inl e, h @ [dset (dset (h ! a) ''distance'' (PFloat distance)) ''rank''
                         (PInt (int i + 1))])
      | Inr s \<Rightarrow>
          (case dget (dset (dset (h ! a) ''distance'' (PFloat distance)) ''rank''
                        (PInt (int i + 1))) ''chunk_id'' of
             Inl e \<Rightarrow>
               (Inl e, h @ [dset (dset (h ! a) ''distance'' (PFloat distance)) ''rank''
                              (PInt (int i + 1))])
           | Inr c \<Rightarrow>
               search_loop
                 (h @ [dset (dset (h ! a) ''distance'' (PFloat distance)) ''rank''
                         (PInt (int i + 1))])
                 cs rest (Suc i) (res @ [length h])))"
  using assms by (simp add: Let_def cong: sum.case_cong)

lemma search_loop_frame:
  assumes "\<forall>a\<in>set cs. a < length h" and "search_loop h cs ps i res = (out, h')"
  shows "length h \<le> length h' \<and> (\<forall>a<length h. h' ! a = h ! a)"
  using assms
proof (induction ps arbitrary: h i res)
  case Nil
  then show ?case by simp
next
  case (Cons p rest)
  obtain idx distance where p: "p = (idx, distance)" by (cases p)
  show ?case
  proof (cases "py_getitem cs idx")
    case (Inl e)
    then show ?thesis using Cons.prems(2) p by simp
  next
    case (Inr a)
    define chunk where
      "chunk = dset (dset (h ! a) ''distance'' (PFloat distance)) ''rank'' (PInt (int i + 1))"
    note step = search_loop_Cons [OF Inr, of h distance rest i res, folded chunk_def]
    have old: "\<forall>b<length h. (h @ [chunk]) ! b = h ! b" by (simp add: nth_append)
    show ?thesis
    proof (cases "dget chunk ''source''")
      case (Inl e)
      then have "h' = h @ [chunk]" using Cons.prems(2) p step by simp
      then show ?thesis using old by simp
    next
      case s: (Inr s)
      show ?thesis
      proof (cases "dget chunk ''chunk_id''")
        case (Inl e)
        then have "h' = h @ [chunk]" using Cons.prems(2) p step s by simp
        then show ?thesis using old by simp
      next
        case c: (Inr c)
        have run: "search_loop (h @ [chunk]) cs rest (Suc i) (res @ [length h]) = (out, h')"
          using Cons.prems(2) p step s c by simp
        have wf: "\<forall>a\<in>set cs. a < length (h @ [chunk])" using Cons.prems(1) by auto
        have "length (h @ [chunk]) \<le> length h' \<and> (\<forall>a<length (h @ [chunk]). h' ! a = (h @ [chunk]) ! a)"
          using Cons.IH [OF wf run] .
        then have "Suc (length h) \<le> length h'"
          and "\<forall>a<Suc (length h). h' ! a = (h @ [chunk]) ! a" by simp_all
        then show ?thesis using old by (metis Suc_leD less_Suc_eq)
      qed
    qed
  qed
qed

lemma search_loop_values:
  assumes "\<forall>a\<in>set cs. a < length h" and "search_loop h cs ps i res = (out, h')"
  shows "case result_dicts (map (\<lambda>a. h ! a) cs) ps i of
           Inl e \<Rightarrow> out = Inl e
         | Inr ds \<Rightarrow> (\<exists>new. out = Inr (res @ new) \<and> map (\<lambda>a. h' ! a) new = ds \<and>
                        (\<forall>a\<in>set new. length h \<le> a \<and> a < length h'))"
  using assms
proof (induction ps arbitrary: h i res)
  case Nil
  then show ?case by simp
next
  case (Cons p rest)
  obtain idx distance where p: "p = (idx, distance)" by (cases p)
  define C where "C = map (\<lambda>a. h ! a) cs"
  show ?case unfolding C_def [symmetric]
  proof (cases "py_getitem cs idx")
    case (Inl e)
    then have "py_getitem C idx = Inl e" by (simp add: C_def py_getitem_map)
    then show "case result_dicts C (p # rest) i of
           Inl e \<Rightarrow> out = Inl e
         | Inr ds \<Rightarrow> (\<exists>new. out = Inr (res @ new) \<and> map (\<lambda>a. h' ! a) new = ds \<and>
                        (\<forall>a\<in>set new. length h \<le> a \<and> a < length h'))"
      using Cons.prems(2) p Inl by simp
  next
    case (Inr a)
    define chunk where
      "chunk = dset (dset (h ! a) ''distance'' (PFloat distance)) ''rank'' (PInt (int i + 1))"
    note step = search_loop_Cons [OF Inr, of h distance rest i res, folded chunk_def]
    have g: "py_getitem C idx = Inr (h ! a)" using Inr by (simp add: C_def py_getitem_map)
    have rd: "result_dicts C (p # rest) i =
       (case dget chunk ''source'' of
          Inl e \<Rightarrow> Inl e
        | Inr s \<Rightarrow>
            (case dget chunk ''chunk_id'' of
               Inl e \<Rightarrow> Inl e
             | Inr c \<Rightarrow>
                 (case result_dicts C rest (Suc i) of
                    Inl e \<Rightarrow> Inl e
                  | Inr ds \<Rightarrow> Inr (chunk # ds))))"
      unfolding chunk_def using g by (simp add: p Let_def)
    have old: "\<forall>b<length h. (h @ [chunk]) ! b = h ! b" by (simp add: nth_append)
    have C3: "map (\<lambda>a. (h @ [chunk]) ! a) cs = C"
      unfolding C_def using Cons.prems(1) old by (intro map_cong) simp_all
    show "case result_dicts C (p # rest) i of
           Inl e \<Rightarrow> out = Inl e
         | Inr ds \<Rightarrow> (\<exists>new. out = Inr (res @ new) \<and> map (\<lambda>a. h' ! a) new = ds \<and>
                        (\<forall>a\<in>set new. length h \<le> a \<and> a < length h'))"
    proof (cases "dget chunk ''source''")
      case (Inl e)
      then have "out = Inl e" using Cons.prems(2) p step by simp
      then show ?thesis using rd Inl by simp
    next
      case s: (Inr s)
      show ?thesis
      proof (cases "dget chunk ''chunk_id''")
        case (Inl e)
        then have "out = Inl e" using Cons.prems(2) p step s by simp
        then show ?thesis using rd Inl s by simp
      next
        case c: (Inr c)
        have run: "search_loop (h @ [chunk]) cs rest (Suc i) (res @ [length h]) = (out, h')"
          using Cons.prems(2) p step s c by simp
        have wf: "\<forall>a\<in>set cs. a < length (h @ [chunk])" using Cons.prems(1) by auto
        have "length (h @ [chunk]) \<le> length h' \<and>
            (\<forall>a<length (h @ [chunk]). h' ! a = (h @ [chunk]) ! a)"
          using search_loop_frame [OF wf run] .
        then have ln: "length h < length h'" and hn: "h' ! length h = chunk" by simp_all
        have ih: "case result_dicts C rest (Suc i) of
           Inl e \<Rightarrow> out = Inl e
         | Inr ds \<Rightarrow> (\<exists>new. out = Inr ((res @ [length h]) @ new) \<and>
                        map (\<lambda>a. h' ! a) new = ds \<and>
                        (\<forall>a\<in>set new. length (h @ [chunk]) \<le> a \<and> a < length h'))"
          using Cons.IH [OF wf run] by (simp only: C3)
        show ?thesis
        proof (cases "result_dicts C rest (Suc i)")
          case (Inl e)
          then show ?thesis using ih rd s c by simp
        next
          case (Inr ds)
          then obtain new where o: "out = Inr ((res @ [length h]) @ new)"
            and m: "map (\<lambda>a. h' ! a) new = ds"
            and f: "\<forall>a\<in>set new. length (h @ [chunk]) \<le> a \<and> a < length h'"
            using ih by auto
          have f': "\<forall>a\<in>set new. length h \<le> a \<and> a < length h'" using f by auto
          have o': "out = Inr (res @ (length h # new))" using o by simp
          have m': "map (\<lambda>a. h' ! a) (length h # new) = chunk # ds" using m hn by simp
          have f'': "\<forall>a\<in>set (length h # new). length h \<le> a \<and> a < length h'"
            using f' ln by simp
          have "\<exists>new. out = Inr (res @ new) \<and>
              map (\<lambda>a. h' ! a) new = chunk # ds \<and>
              (\<forall>a\<in>set new. length h \<le> a \<and> a < length h')"
            by (rule exI [of _ "length h # new"]) (intro conjI o' m' f'')
          then show ?thesis using Inr rd s c by simp
        qed
      qed
    qed
  qed
qed

lemma search_view:
  assumes "\<forall>a\<in>set (self_chunks r). a < length h"
  shows "result_view (search sp embed_q r h query k) =
     (case embed_q query of
        Inl e \<Rightarrow> Inl e
      | Inr q \<Rightarrow>
          (case faiss_search sp (self_index r) (map (astype sp) q) k of
             Inl e \<Rightarrow> Inl e
           | Inr (distances, indices) \<Rightarrow>
               result_dicts (map (\<lambda>a. h ! a) (self_chunks r)) (zip indices distances) 0))"
proof (cases "embed_q query")
  case (Inl e)
  then show ?thesis by (simp add: search_def result_view_def)
next
  case q: (Inr q)
  show ?thesis
  proof (cases "faiss_search sp (self_index r) (map (astype sp) q) k")
    case (Inl e)
    then show ?thesis using q by (simp add: search_def result_view_def)
  next
    case (Inr di)
    obtain distances indices where di: "di = (distances, indices)" by (cases di)
    define C where "C = map (\<lambda>a. h ! a) (self_chunks r)"
    obtain out h' where run: "search_loop h (self_chunks r) (zip indices distances) 0 [] = (out, h')"
      by (cases "search_loop h (self_chunks r) (zip indices distances) 0 []")
    have s: "search sp embed_q r h query k = (out, h')"
      using q Inr di run by (simp add: search_def)
    have v: "case result_dicts C (zip indices distances) 0 of
           Inl e \<Rightarrow> out = Inl e
         | Inr ds \<Rightarrow> (\<exists>new. out = Inr ([] @ new) \<and> map (\<lambda>a. h' ! a) new = ds \<and>
                        (\<forall>a\<in>set new. length h \<le> a \<and> a < length h'))"
      unfolding C_def using search_loop_values [OF assms run] .
    have "result_view (out, h') = result_dicts C (zip indices distances) 0"
    proof (cases "result_dicts C (zip indices distances) 0")
      case (Inl e)
      then show ?thesis using v by (simp add: result_view_def)
    next
      case (Inr ds)
      then obtain new where "out = Inr new" and "map (\<lambda>a. h' ! a) new = ds" using v by auto
      then show ?thesis using Inr by (simp add: result_view_def)
    qed
    then show ?thesis using q Inr di s by (simp add: C_def)
  qed
qed

lemma search_frame:
  assumes "\<forall>a\<in>set (self_chunks r). a < length h"
  shows "length h \<le> length (snd (search sp embed_q r h query k)) \<and>
         (\<forall>a<length h. snd (search sp embed_q r h query k) ! a = h ! a)"
proof (cases "embed_q query")
  case (Inl e)
  then show ?thesis by (simp add: search_def)
next
  case q: (Inr q)
  show ?thesis
  proof (cases "faiss_search sp (self_index r) (map (astype sp) q) k")
    case (Inl e)
    then show ?thesis using q by (simp add: search_def)
  next
    case (Inr di)
    obtain distances indices where di: "di = (distances, indices)" by (cases di)
    obtain out h' where run: "search_loop h (self_chunks r) (zip indices distances) 0 [] = (out, h')"
      by (cases "search_loop h (self_chunks r) (zip indices distances) 0 []")
    have s: "search sp embed_q r h query k = (out, h')"
      using q Inr di run by (simp add: search_def)
    show ?thesis using search_loop_frame [OF assms run] by (simp add: s)
  qed
qed

lemma ask_heap: "snd (ask sp embed_q chat r h query k model) = snd (search sp embed_q r h query k)"
  by (simp add: ask_def split: prod.splits sum.splits)

lemma run_calls_frame:
  assumes "\<forall>a\<in>set (self_chunks r). a < length h"
  shows "length h \<le> length (run_calls sp embed_q chat r h calls) \<and>
         (\<forall>a<length h. run_calls sp embed_q chat r h calls ! a = h ! a)"
  using assms
proof (induction calls arbitrary: h)
  case Nil
  show ?case by simp
next
  case (Cons c rest)
  define h1 where "h1 = (case c of Search q k \<Rightarrow> snd (search sp embed_q r h q k)
                     | Ask q k m \<Rightarrow> snd (ask sp embed_q chat r h q k m))"
  have "\<exists>query k. snd (search sp embed_q r h query k) = h1"
    unfolding h1_def by (cases c) (auto simp: ask_heap)
  then obtain query k where h1s: "snd (search sp embed_q r h query k) = h1" by blast
  have f1: "length h \<le> length h1 \<and> (\<forall>a<length h. h1 ! a = h ! a)"
    using search_frame [OF Cons.prems, of sp embed_q query k, unfolded h1s] .
  then have wf1: "\<forall>a\<in>set (self_chunks r). a < length h1" using Cons.prems by auto
  have r: "run_calls sp embed_q chat r h (c # rest) = run_calls sp embed_q chat r h1 rest"
    by (cases c) (simp_all add: h1_def)
  have "length h1 \<le> length (run_calls sp embed_q chat r h1 rest) \<and>
        (\<forall>a<length h1. run_calls sp embed_q chat r h1 rest ! a = h1 ! a)"
    using Cons.IH [OF wf1] .
  then show ?case using f1 unfolding r by (metis le_trans less_le_trans)
qed

lemma result_dicts_shape:
  "result_dicts C ps i = Inr ds \<Longrightarrow>
     length ds = length ps \<and>
     (\<forall>j<length ps. \<exists>c. py_getitem C (fst (ps ! j)) = Inr c \<and>
        ds ! j = dset (dset c ''distance'' (PFloat (snd (ps ! j)))) ''rank''
                   (PInt (int (i + j) + 1)))"
proof (induction ps arbitrary: i ds)
  case Nil
  then show ?case by simp
next
  case (Cons p rest)
  obtain idx distance where p: "p = (idx, distance)" by (cases p)
  obtain c where c: "py_getitem C idx = Inr c"
    using Cons.prems p by (cases "py_getitem C idx") simp_all
  define chunk where
    "chunk = dset (dset c ''distance'' (PFloat distance)) ''rank'' (PInt (int i + 1))"
  obtain ds' where r: "result_dicts C rest (Suc i) = Inr ds'" and d: "ds = chunk # ds'"
    using Cons.prems p c unfolding chunk_def
    by (auto simp: Let_def split: sum.splits)
  have ih: "length ds' = length rest \<and>
     (\<forall>j<length rest. \<exists>c. py_getitem C (fst (rest ! j)) = Inr c \<and>
        ds' ! j = dset (dset c ''distance'' (PFloat (snd (rest ! j)))) ''rank''
                   (PInt (int (Suc i + j) + 1)))"
    using Cons.IH [OF r] .
  show ?case
  proof (intro conjI allI impI)
    show "length ds = length (p # rest)" using ih d by simp
  next
    fix j assume j: "j < length (p # rest)"
    show "\<exists>c. py_getitem C (fst ((p # rest) ! j)) = Inr c \<and>
        ds ! j = dset (dset c ''distance'' (PFloat (snd ((p # rest) ! j)))) ''rank''
                   (PInt (int (i + j) + 1))"
    proof (cases j)
      case 0
      then show ?thesis using c d p by (simp add: chunk_def)
    next
      case (Suc j')
      then have "j' < length rest" using j by simp
      then obtain c' where "py_getitem C (fst (rest ! j')) = Inr c' \<and>
        ds' ! j' = dset (dset c' ''distance'' (PFloat (snd (rest ! j')))) ''rank''
                   (PInt (int (Suc i + j') + 1))" using ih by blast
      then show ?thesis using Suc d by simp
    qed
  qed
qed


lemma search_results:
  assumes "\<forall>a\<in>set (self_chunks r). a < length h"
    and "search sp embed_q r h query k = (Inr res, h')"
  shows "\<exists>q distances indices. embed_q query = Inr q \<and>
           faiss_search sp (self_index r) (map (astype sp) q) k = Inr (distances, indices) \<and>
           result_dicts (map (\<lambda>a. h ! a) (self_chunks r)) (zip indices distances) 0 =
             Inr (map (\<lambda>a. h' ! a) res) \<and>
           (\<forall>a\<in>set res. length h \<le> a \<and> a < length h')"
proof -
  obtain q where q: "embed_q query = Inr q"
    using assms(2) by (cases "embed_q query") (simp_all add: search_def)
  obtain distances indices where f: "faiss_search sp (self_index r) (map (astype sp) q) k = Inr (distances, indices)"
    using assms(2) q by (cases "faiss_search sp (self_index r) (map (astype sp) q) k") (auto simp: search_def)
  have run: "search_loop h (self_chunks r) (zip indices distances) 0 [] = (Inr res, h')"
    using assms(2) q f by (simp add: search_def)
  note v = search_loop_values [OF assms(1) run]
  have "result_dicts (map (\<lambda>a. h ! a) (self_chunks r)) (zip indices distances) 0 =
           Inr (map (\<lambda>a. h' ! a) res) \<and>
           (\<forall>a\<in>set res. length h \<le> a \<and> a < length h')"
  proof (cases "result_dicts (map (\<lambda>a. h ! a) (self_chunks r)) (zip indices distances) 0")
    case (Inl e)
    then show ?thesis using v by simp
  next
    case (Inr ds)
    then show ?thesis using v by auto
  qed
  then show ?thesis using q f by blast
qed









text \<open>
  Claim C1. The claim says that a request for more results than there are stored
  vectors returns the available rows only, each with the data of its own chunk. With two
  chunks and \<open>k = 3\<close> the index fills the third place with row \<open>-1\<close>, and
  \<open>self.chunks[-1]\<close> is the last chunk: the call returns three results, the third a
  second copy of chunk 1 with the largest single-precision number as distance.
\<close>

theorem search_beyond_capacity:
  "faiss_search exact_f32 \<lparr>dim = 1, xb = [[0], [1]]\<rparr> [0] 3 = Inr ([0, 1, flt_max], [0, 1, - 1]) \<and>
   result_view
     (search exact_f32 (\<lambda>t. Inr [0]) \<lparr>self_index = \<lparr>dim = 1, xb = [[0], [1]]\<rparr>, self_chunks = [0, 1]\<rparr>
        [[(''source'', PStr ''a.pdf''), (''chunk_id'', PInt 0)],
         [(''source'', PStr ''a.pdf''), (''chunk_id'', PInt 1)]] ''q'' 3) =
     Inr [[(''source'', PStr ''a.pdf''), (''chunk_id'', PInt 0),
           (''distance'', PFloat 0), (''rank'', PInt 1)],
          [(''source'', PStr ''a.pdf''), (''chunk_id'', PInt 1),
           (''distance'', PFloat 1), (''rank'', PInt 2)],
          [(''source'', PStr ''a.pdf''), (''chunk_id'', PInt 1),
           (''distance'', PFloat flt_max), (''rank'', PInt 3)]]"
proof -
  have f: "faiss_search exact_f32 \<lparr>dim = 1, xb = [[0], [1]]\<rparr> [0] 3 = Inr ([0, 1, flt_max], [0, 1, - 1])"
    by (simp add: faiss_search_def ntotal_def row_dist_def admitted_rows_def exact_f32_def
        l2sqr_exact_def flt_max_def Let_def upt_rec numeral_3_eq_3)
  have f': "faiss_search exact_f32 \<lparr>dim = Suc 0, xb = [[0], [1]]\<rparr> [0] 3 =
      Inr ([0, 1, flt_max], [0, 1, - 1])"
    using f by simp
  have a: "astype exact_f32 0 = 0" by (simp add: exact_f32_def)
  show ?thesis
    by (simp add: a f' search_def result_view_def py_getitem_def dget_def dset_def Let_def)
qed

lemma py_getitem_mem: "py_getitem xs i = Inr x \<Longrightarrow> x \<in> set xs"
proof -
  assume a: "py_getitem xs i = Inr x"
  show ?thesis
  proof (cases "0 \<le> i \<and> i < int (length xs)")
    case True
    then have "nat i < length xs" by linarith
    moreover have "x = xs ! nat i" using a True by (simp add: py_getitem_def)
    ultimately show ?thesis by simp
  next
    case False
    then have b: "i < 0 \<and> - int (length xs) \<le> i"
      using a by (simp add: py_getitem_def split: if_splits)
    then have "nat (int (length xs) + i) < length xs" by linarith
    moreover have "x = xs ! nat (int (length xs) + i)"
      using a False b by (simp add: py_getitem_def)
    ultimately show ?thesis by simp
  qed
qed

lemma search_copies:
  assumes wf: "\<forall>a\<in>set (self_chunks r). a < length h"
    and s: "search sp embed_q r h query k = (Inr res, h')"
  shows "(\<forall>a\<in>set res. length h \<le> a \<and> a \<notin> set (self_chunks r)) \<and>
         (\<forall>j<length res. \<exists>c\<in>set (self_chunks r). \<exists>d.
            h' ! (res ! j) = dset (dset (h ! c) ''distance'' (PFloat d)) ''rank''
                               (PInt (int j + 1))) \<and>
         (\<forall>a<length h. h' ! a = h ! a)"
proof -
  define C where "C = map (\<lambda>a. h ! a) (self_chunks r)"
  obtain distances indices where
    rd: "result_dicts C (zip indices distances) 0 = Inr (map (\<lambda>a. h' ! a) res)"
    and fresh: "\<forall>a\<in>set res. length h \<le> a \<and> a < length h'"
    using search_results [OF wf s] unfolding C_def by blast
  define ps where "ps = zip indices distances"
  have shape: "length (map (\<lambda>a. h' ! a) res) = length ps \<and>
     (\<forall>j<length ps. \<exists>c. py_getitem C (fst (ps ! j)) = Inr c \<and>
        map (\<lambda>a. h' ! a) res ! j =
          dset (dset c ''distance'' (PFloat (snd (ps ! j)))) ''rank'' (PInt (int (0 + j) + 1)))"
    using result_dicts_shape [OF rd [folded ps_def]] .
  have a: "\<forall>a\<in>set res. length h \<le> a \<and> a \<notin> set (self_chunks r)"
    using fresh wf by fastforce
  have b: "\<forall>j<length res. \<exists>c\<in>set (self_chunks r). \<exists>d.
            h' ! (res ! j) = dset (dset (h ! c) ''distance'' (PFloat d)) ''rank''
                               (PInt (int j + 1))"
  proof (intro allI impI)
    fix j assume j: "j < length res"
    then have jp: "j < length ps" using shape by simp
    then obtain c where g: "py_getitem C (fst (ps ! j)) = Inr c"
      and e: "map (\<lambda>a. h' ! a) res ! j =
          dset (dset c ''distance'' (PFloat (snd (ps ! j)))) ''rank'' (PInt (int (0 + j) + 1))"
      using shape by blast
    have "c \<in> set C" using g by (rule py_getitem_mem)
    then obtain a where am: "a \<in> set (self_chunks r)" and ca: "c = h ! a"
      unfolding C_def by auto
    have "h' ! (res ! j) = dset (dset (h ! a) ''distance'' (PFloat (snd (ps ! j)))) ''rank''
        (PInt (int j + 1))" using e j ca by simp
    then show "\<exists>c\<in>set (self_chunks r). \<exists>d.
            h' ! (res ! j) = dset (dset (h ! c) ''distance'' (PFloat d)) ''rank''
                               (PInt (int j + 1))" using am by blast
  qed
  have c: "\<forall>a<length h. h' ! a = h ! a"
    using search_frame [OF wf, of sp embed_q query k] by (simp add: s)
  show ?thesis using a b c by (intro conjI)
qed

text \<open>
  Claim C9. Neither \<open>search\<close> nor \<open>ask\<close> assigns a field of the retriever; the objects
  they could change are the chunk dicts in the store. After any sequence of \<open>search\<close> and
  \<open>ask\<close> calls every dict that existed before, and so every stored chunk, is what it
  was. Each result of a successful \<open>search\<close> is a new object, different from every
  stored chunk, whose content is a stored chunk with \<open>distance\<close> and \<open>rank\<close> set.
\<close>

theorem query_calls_preserve_store:
  assumes "\<forall>a\<in>set (self_chunks r). a < length h"
  shows "(\<forall>a<length h. run_calls sp embed_q chat r h calls ! a = h ! a) \<and>
         map (\<lambda>a. run_calls sp embed_q chat r h calls ! a) (self_chunks r) =
           map (\<lambda>a. h ! a) (self_chunks r) \<and>
         (\<forall>query k res h'. search sp embed_q r h query k = (Inr res, h') \<longrightarrow>
            (\<forall>a\<in>set res. length h \<le> a \<and> a \<notin> set (self_chunks r)) \<and>
            (\<forall>j<length res. \<exists>c\<in>set (self_chunks r). \<exists>d.
               h' ! (res ! j) = dset (dset (h ! c) ''distance'' (PFloat d)) ''rank''
                                  (PInt (int j + 1))) \<and>
            (\<forall>a<length h. h' ! a = h ! a)) \<and>
         (\<forall>query k model. snd (ask sp embed_q chat r h query k model) =
            snd (search sp embed_q r h query k))"
proof -
  have f: "\<forall>a<length h. run_calls sp embed_q chat r h calls ! a = h ! a"
    using run_calls_frame [OF assms, of sp embed_q chat calls] by blast
  have m: "map (\<lambda>a. run_calls sp embed_q chat r h calls ! a) (self_chunks r) =
           map (\<lambda>a. h ! a) (self_chunks r)"
    using assms f by (intro map_cong) simp_all
  have c: "\<forall>query k res h'. search sp embed_q r h query k = (Inr res, h') \<longrightarrow>
            (\<forall>a\<in>set res. length h \<le> a \<and> a \<notin> set (self_chunks r)) \<and>
            (\<forall>j<length res. \<exists>c\<in>set (self_chunks r). \<exists>d.
               h' ! (res ! j) = dset (dset (h ! c) ''distance'' (PFloat d)) ''rank''
                                  (PInt (int j + 1))) \<and>
            (\<forall>a<length h. h' ! a = h ! a)"
    using search_copies [OF assms] by blast
  have a: "\<forall>query k model. snd (ask sp embed_q chat r h query k model) =
            snd (search sp embed_q r h query k)"
    by (simp add: ask_heap)
  show ?thesis using f m c a by (intro conjI)
qed

theorem query_calls_preserve_store_witness:
  "map (\<lambda>a. run_calls exact_f32 (\<lambda>t. Inr [0])
              (\<lambda>q ctx m. Inr \<lparr>content = ''ok'', prompt_tokens = 1, completion_tokens = 1,
                              total_tokens = 2\<rparr>)
              \<lparr>self_index = \<lparr>dim = 1, xb = [[0::rat], [1]]\<rparr>, self_chunks = [0, 1]\<rparr>
              [[(''source'', PStr ''a.pdf''), (''chunk_id'', PInt 0)],
               [(''source'', PStr ''a.pdf''), (''chunk_id'', PInt 1)]]
              [Search ''q'' 3, Ask ''q'' 1 ''m''] ! a)
     (self_chunks \<lparr>self_index = \<lparr>dim = 1, xb = [[0::rat], [1]]\<rparr>, self_chunks = [0, 1]\<rparr>) =
   map (\<lambda>a. [[(''source'', PStr ''a.pdf''), (''chunk_id'', PInt 0)],
              [(''source'', PStr ''a.pdf''), (''chunk_id'', PInt 1)]] ! a)
     (self_chunks \<lparr>self_index = \<lparr>dim = 1, xb = [[0::rat], [1]]\<rparr>, self_chunks = [0, 1]\<rparr>)"
proof -
  define r where "r = \<lparr>self_index = \<lparr>dim = 1, xb = [[0::rat], [1]]\<rparr>, self_chunks = [0, 1]\<rparr>"
  define h where "h = [[(''source'', PStr ''a.pdf''), (''chunk_id'', PInt 0)],
               [(''source'', PStr ''a.pdf''), (''chunk_id'', PInt 1)]]"
  define e where "e = (\<lambda>t::string. (Inr [0] :: error + vec))"
  define chat where "chat = (\<lambda>(q::string) (ctx::(pyval \<times> pyval) list) (m::string).
      (Inr \<lparr>content = ''ok'', prompt_tokens = 1, completion_tokens = 1,
                              total_tokens = 2\<rparr> :: error + completion))"
  define calls where "calls = [Search ''q'' 3, Ask ''q'' 1 ''m'']"
  have wf: "\<forall>a\<in>set (self_chunks r). a < length h" unfolding r_def h_def by simp
  have "map (\<lambda>a. run_calls exact_f32 e chat r h calls ! a) (self_chunks r) =
        map (\<lambda>a. h ! a) (self_chunks r)"
    using query_calls_preserve_store [OF wf, of exact_f32 e chat calls] by (elim conjE)
  then show ?thesis unfolding r_def h_def e_def chat_def calls_def .
qed

section \<open>Properties of saving and loading\<close>

lemma loaded_chunks:
  "map (\<lambda>a. (h @ cs) ! a) [length h ..< length h + length cs] = cs"
  by (intro nth_equalityI) (simp_all add: nth_append)

lemma load_index_present:
  assumes "fs index_path = Some (FaissFile idx)" and "fs chunks_path = Some (PickleFile cs)"
  shows "load_index fs h index_path chunks_path =
           (Inr (idx, [length h ..< length h + length cs]), h @ cs)"
  using assms by (simp add: load_index_def)

text \<open>
  Claim C4, as stated, fails. With no artifact stored, \<open>load_index\<close> ends with the index
  library's RuntimeError, not IndexNotFoundError; with an index of two vectors and a
  chunk file of one chunk it returns both, and does not end with IndexCorruptError.
\<close>

theorem load_index_counterexample:
  "load_index (Map.empty :: rat storage) [] ''index/legal.faiss'' ''index/chunks.pkl'' = (Inl RuntimeError, []) \<and>
   RuntimeError \<noteq> IndexNotFoundError \<and>
   load_index
     ((Map.empty :: rat storage)(''index/legal.faiss'' \<mapsto> FaissFile \<lparr>dim = 1, xb = [[0::rat], [1]]\<rparr>,
                ''index/chunks.pkl'' \<mapsto> PickleFile [[(''chunk_id'', PInt 0)]]))
     [] ''index/legal.faiss'' ''index/chunks.pkl'' =
     (Inr (\<lparr>dim = 1, xb = [[0::rat], [1]]\<rparr>, [0]), [[(''chunk_id'', PInt 0)]]) \<and>
   ntotal \<lparr>dim = 1, xb = [[0::rat], [1]]\<rparr> \<noteq> length [[(''chunk_id'', PInt 0)]]"
  by (simp add: load_index_def ntotal_def)

text \<open>
  Claim C4, amended. \<open>load_index\<close> ends with RuntimeError when the index file is
  missing, and with FileNotFoundError when the index file is there and the chunk file is
  missing; \<open>index_exists\<close>, which the callers test first, is false when either is missing.
  When both artifacts are there, \<open>load_index\<close> returns the stored index and new chunk
  objects with the stored contents, whatever the two row counts are, and leaves the
  objects that existed before as they were.
\<close>

theorem load_index_outcomes:
  "(fs index_path = None \<longrightarrow>
      load_index fs h index_path chunks_path = (Inl RuntimeError, h)) \<and>
   (fs index_path = Some (FaissFile idx) \<and> fs chunks_path = None \<longrightarrow>
      load_index fs h index_path chunks_path = (Inl FileNotFoundError, h)) \<and>
   (fs index_path = None \<or> fs chunks_path = None \<longrightarrow>
      \<not> index_exists fs index_path chunks_path) \<and>
   (fs index_path = Some (FaissFile idx) \<and> fs chunks_path = Some (PickleFile cs) \<longrightarrow>
      (\<exists>chunks h'. load_index fs h index_path chunks_path = (Inr (idx, chunks), h') \<and>
         map (\<lambda>a. h' ! a) chunks = cs \<and> (\<forall>a<length h. h' ! a = h ! a)))"
proof (intro conjI impI)
  assume "fs index_path = None"
  then show "load_index fs h index_path chunks_path = (Inl RuntimeError, h)"
    by (simp add: load_index_def)
next
  assume "fs index_path = Some (FaissFile idx) \<and> fs chunks_path = None"
  then show "load_index fs h index_path chunks_path = (Inl FileNotFoundError, h)"
    by (simp add: load_index_def)
next
  assume "fs index_path = None \<or> fs chunks_path = None"
  then show "\<not> index_exists fs index_path chunks_path"
    by (auto simp: index_exists_def)
next
  assume a: "fs index_path = Some (FaissFile idx) \<and> fs chunks_path = Some (PickleFile cs)"
  have l: "load_index fs h index_path chunks_path =
           (Inr (idx, [length h ..< length h + length cs]), h @ cs)"
    using a by (simp add: load_index_present)
  have m: "map (\<lambda>a. (h @ cs) ! a) [length h ..< length h + length cs] = cs"
    by (rule loaded_chunks)
  have f: "\<forall>a<length h. (h @ cs) ! a = h ! a" by (simp add: nth_append)
  show "\<exists>chunks h'. load_index fs h index_path chunks_path = (Inr (idx, chunks), h') \<and>
         map (\<lambda>a. h' ! a) chunks = cs \<and> (\<forall>a<length h. h' ! a = h ! a)"
    using l m f by blast
qed

theorem load_index_outcomes_witness:
  "load_index ((Map.empty :: rat storage)(''index/chunks.pkl'' \<mapsto> PickleFile [[(''chunk_id'', PInt 0)]]))
     [] ''index/legal.faiss'' ''index/chunks.pkl'' = (Inl RuntimeError, []) \<and>
   load_index ((Map.empty :: rat storage)(''index/legal.faiss'' \<mapsto> FaissFile \<lparr>dim = 1, xb = [[0::rat], [1]]\<rparr>))
     [] ''index/legal.faiss'' ''index/chunks.pkl'' = (Inl FileNotFoundError, []) \<and>
   \<not> index_exists ((Map.empty :: rat storage)(''index/legal.faiss'' \<mapsto> FaissFile \<lparr>dim = 1, xb = [[0::rat], [1]]\<rparr>))
       ''index/legal.faiss'' ''index/chunks.pkl'' \<and>
   (\<exists>chunks h'.
      load_index
        ((Map.empty :: rat storage)(''index/legal.faiss'' \<mapsto> FaissFile \<lparr>dim = 1, xb = [[0::rat], [1]]\<rparr>,
                   ''index/chunks.pkl'' \<mapsto> PickleFile [[(''chunk_id'', PInt 0)]]))
        [] ''index/legal.faiss'' ''index/chunks.pkl'' =
        (Inr (\<lparr>dim = 1, xb = [[0::rat], [1]]\<rparr>, chunks), h') \<and>
      map (\<lambda>a. h' ! a) chunks = [[(''chunk_id'', PInt 0)]])"
proof -
  define ip where "ip = ''index/legal.faiss''"
  define cp where "cp = ''index/chunks.pkl''"
  define idx where "idx = \<lparr>dim = 1, xb = [[0::rat], [1]]\<rparr>"
  define cs where "cs = [[(''chunk_id'', PInt 0)]]"
  define fs1 :: "rat storage" where "fs1 = (Map.empty :: rat storage)(cp \<mapsto> PickleFile cs)"
  define fs2 :: "rat storage" where "fs2 = (Map.empty :: rat storage)(ip \<mapsto> FaissFile idx)"
  define fs3 :: "rat storage" where "fs3 = (Map.empty :: rat storage)(ip \<mapsto> FaissFile idx, cp \<mapsto> PickleFile cs)"
  have ne: "ip \<noteq> cp" unfolding ip_def cp_def by simp
  have h1: "fs1 ip = None" unfolding fs1_def using ne by simp
  have h2: "fs2 ip = Some (FaissFile idx) \<and> fs2 cp = None" unfolding fs2_def using ne by simp
  have h3: "fs2 ip = None \<or> fs2 cp = None" using h2 by simp
  have h4: "fs3 ip = Some (FaissFile idx) \<and> fs3 cp = Some (PickleFile cs)"
    unfolding fs3_def using ne by simp
  have a: "load_index fs1 [] ip cp = (Inl RuntimeError, [])"
    using load_index_outcomes [of fs1 ip "[]" cp idx cs] h1 by blast
  have b: "load_index fs2 [] ip cp = (Inl FileNotFoundError, [])"
    using load_index_outcomes [of fs2 ip "[]" cp idx cs] h2 by blast
  have c: "\<not> index_exists fs2 ip cp"
    using load_index_outcomes [of fs2 ip "[]" cp idx cs] h3 by blast
  have d: "\<exists>chunks h'. load_index fs3 [] ip cp = (Inr (idx, chunks), h') \<and>
      map (\<lambda>a. h' ! a) chunks = cs"
    using load_index_outcomes [of fs3 ip "[]" cp idx cs] h4 by blast
  have "load_index fs1 [] ip cp = (Inl RuntimeError, []) \<and>
        load_index fs2 [] ip cp = (Inl FileNotFoundError, []) \<and>
        \<not> index_exists fs2 ip cp \<and>
        (\<exists>chunks h'. load_index fs3 [] ip cp = (Inr (idx, chunks), h') \<and>
           map (\<lambda>a. h' ! a) chunks = cs)"
    using a b c d by (intro conjI)
  then show ?thesis unfolding fs1_def fs2_def fs3_def ip_def cp_def idx_def cs_def .
qed

lemma save_index_written:
  assumes "save_index dir_exists fs h index chunks index_path chunks_path = (Inr (), fs')"
    and "index_path \<noteq> chunks_path"
  shows "fs' index_path = Some (FaissFile index) \<and>
         fs' chunks_path = Some (PickleFile (map (\<lambda>a. h ! a) chunks))"
  using assms by (auto simp: save_index_def Let_def split: if_splits)

lemma search_view_cong:
  assumes "\<forall>a\<in>set (self_chunks r1). a < length h1"
    and "\<forall>a\<in>set (self_chunks r2). a < length h2"
    and "self_index r1 = self_index r2"
    and "map (\<lambda>a. h1 ! a) (self_chunks r1) = map (\<lambda>a. h2 ! a) (self_chunks r2)"
  shows "result_view (search sp embed_q r1 h1 query k) =
         result_view (search sp embed_q r2 h2 query k)"
  by (simp only: search_view [OF assms(1)] search_view [OF assms(2)] assms(3,4))

text \<open>
  Claim C8. When \<open>save_index\<close> succeeds on two different paths, \<open>load_index\<close> on these
  paths (into any heap) succeeds with the saved index and with new chunk objects of the
  saved contents, and for every embedding service, query and \<open>k\<close> the outcome of
  \<open>search\<close> on the reloaded pair (the error, or the list of result dicts with their
  chunk fields, distance and rank) is the outcome of \<open>search\<close> on the pair before saving.
\<close>

theorem save_load_round_trip:
  assumes "save_index dir_exists fs h index chunks index_path chunks_path = (Inr (), fs')"
    and "index_path \<noteq> chunks_path"
    and "\<forall>a\<in>set chunks. a < length h"
  shows "\<exists>chunks2 h2'.
           load_index fs' h2 index_path chunks_path = (Inr (index, chunks2), h2') \<and>
           map (\<lambda>a. h2' ! a) chunks2 = map (\<lambda>a. h ! a) chunks \<and>
           (\<forall>sp embed_q query k.
              result_view (search sp embed_q \<lparr>self_index = index, self_chunks = chunks2\<rparr> h2' query k) =
              result_view (search sp embed_q \<lparr>self_index = index, self_chunks = chunks\<rparr> h query k))"
proof -
  define cs where "cs = map (\<lambda>a. h ! a) chunks"
  define chunks2 where "chunks2 = [length h2 ..< length h2 + length cs]"
  define h2' where "h2' = h2 @ cs"
  have w: "fs' index_path = Some (FaissFile index)" "fs' chunks_path = Some (PickleFile cs)"
    using save_index_written [OF assms(1,2)] by (simp_all add: cs_def)
  have l: "load_index fs' h2 index_path chunks_path = (Inr (index, chunks2), h2')"
    unfolding chunks2_def h2'_def using w by (rule load_index_present)
  have m: "map (\<lambda>a. h2' ! a) chunks2 = cs"
    unfolding chunks2_def h2'_def by (rule loaded_chunks)
  have wf2: "\<forall>a\<in>set (self_chunks \<lparr>self_index = index, self_chunks = chunks2\<rparr>). a < length h2'"
    by (simp add: chunks2_def h2'_def)
  have wf1: "\<forall>a\<in>set (self_chunks \<lparr>self_index = index, self_chunks = chunks\<rparr>). a < length h"
    using assms(3) by simp
  have same: "\<forall>sp embed_q query k.
      result_view (search sp embed_q \<lparr>self_index = index, self_chunks = chunks2\<rparr> h2' query k) =
      result_view (search sp embed_q \<lparr>self_index = index, self_chunks = chunks\<rparr> h query k)"
  proof (intro allI)
    fix sp :: "'a f32_ops" and embed_q query k
    show "result_view (search sp embed_q \<lparr>self_index = index, self_chunks = chunks2\<rparr> h2' query k) =
      result_view (search sp embed_q \<lparr>self_index = index, self_chunks = chunks\<rparr> h query k)"
      using m by (intro search_view_cong [OF wf2 wf1]) (simp_all add: cs_def)
  qed
  show ?thesis using l m same unfolding cs_def by blast
qed

theorem save_load_round_trip_witness:
  "''index/legal.faiss'' \<noteq> ''index/chunks.pkl'' \<and>
   (\<exists>fs'.
      save_index (\<lambda>d. False) Map.empty
        [[(''source'', PStr ''a.pdf''), (''chunk_id'', PInt 0)],
         [(''source'', PStr ''a.pdf''), (''chunk_id'', PInt 1)]]
        \<lparr>dim = 1, xb = [[0::rat], [1]]\<rparr> [0, 1] ''index/legal.faiss'' ''index/chunks.pkl'' = (Inr (), fs') \<and>
      (\<exists>chunks2 h2'.
         load_index fs' [] ''index/legal.faiss'' ''index/chunks.pkl'' =
           (Inr (\<lparr>dim = 1, xb = [[0::rat], [1]]\<rparr>, chunks2), h2') \<and>
         result_view (search exact_f32 (\<lambda>t. Inr [0]) \<lparr>self_index = \<lparr>dim = 1, xb = [[0::rat], [1]]\<rparr>,
                                               self_chunks = chunks2\<rparr> h2' ''q'' 1) =
         result_view (search exact_f32 (\<lambda>t. Inr [0]) \<lparr>self_index = \<lparr>dim = 1, xb = [[0::rat], [1]]\<rparr>,
                                               self_chunks = [0, 1]\<rparr>
           [[(''source'', PStr ''a.pdf''), (''chunk_id'', PInt 0)],
            [(''source'', PStr ''a.pdf''), (''chunk_id'', PInt 1)]] ''q'' 1)))"
proof -
  define ip where "ip = ''index/legal.faiss''"
  define cp where "cp = ''index/chunks.pkl''"
  define idx where "idx = \<lparr>dim = 1, xb = [[0::rat], [1]]\<rparr>"
  define h where "h = [[(''source'', PStr ''a.pdf''), (''chunk_id'', PInt 0)],
         [(''source'', PStr ''a.pdf''), (''chunk_id'', PInt 1)]]"
  define e where "e = (\<lambda>t::string. (Inr [0] :: error + vec))"
  define qs where "qs = ''q''"
  define fs' :: "rat storage" where
    "fs' = (Map.empty :: rat storage)(ip \<mapsto> FaissFile idx, cp \<mapsto> PickleFile (map (\<lambda>a. h ! a) [0, 1]))"
  have ne: "ip \<noteq> cp" unfolding ip_def cp_def by simp
  have d: "py_dirname ip \<noteq> []" unfolding ip_def by (simp add: py_dirname_def)
  have s: "save_index (\<lambda>d. False) Map.empty h idx [0, 1] ip cp = (Inr (), fs')"
    using d by (simp add: save_index_def fs'_def Let_def ip_def cp_def py_dirname_def)
  have wf: "\<forall>a\<in>set [0, 1 :: nat]. a < length h" unfolding h_def by simp
  obtain chunks2 h2' where l: "load_index fs' [] ip cp = (Inr (idx, chunks2), h2')"
    and v: "\<forall>sp embed_q query k.
              result_view (search sp embed_q \<lparr>self_index = idx, self_chunks = chunks2\<rparr> h2' query k) =
              result_view (search sp embed_q \<lparr>self_index = idx, self_chunks = [0, 1]\<rparr> h query k)"
    using save_load_round_trip [OF s ne wf, of "[]"] by blast
  have "result_view (search exact_f32 e \<lparr>self_index = idx, self_chunks = chunks2\<rparr> h2' qs 1) =
        result_view (search exact_f32 e \<lparr>self_index = idx, self_chunks = [0, 1]\<rparr> h qs 1)"
    using v by blast
  then have "\<exists>chunks2 h2'. load_index fs' [] ip cp = (Inr (idx, chunks2), h2') \<and>
        result_view (search exact_f32 e \<lparr>self_index = idx, self_chunks = chunks2\<rparr> h2' qs 1) =
        result_view (search exact_f32 e \<lparr>self_index = idx, self_chunks = [0, 1]\<rparr> h qs 1)"
    using l by blast
  then have "ip \<noteq> cp \<and> (\<exists>fs'. save_index (\<lambda>d. False) Map.empty h idx [0, 1] ip cp = (Inr (), fs') \<and>
      (\<exists>chunks2 h2'. load_index fs' [] ip cp = (Inr (idx, chunks2), h2') \<and>
        result_view (search exact_f32 e \<lparr>self_index = idx, self_chunks = chunks2\<rparr> h2' qs 1) =
        result_view (search exact_f32 e \<lparr>self_index = idx, self_chunks = [0, 1]\<rparr> h qs 1)))"
    using ne s by blast
  then show ?thesis unfolding ip_def cp_def idx_def h_def e_def qs_def .
qed

end
